theory Spec2Isabelle
  imports Main "HOL-Library.Monad_Syntax"
begin

section \<open>Markdown to Slack translation (slackbot.py)\<close>

text \<open>
  This theory embeds the two pure functions of \<^verbatim>\<open>slackbot.py\<close>,
  \<^verbatim>\<open>translate_markdown_for_slack\<close> and \<^verbatim>\<open>format_table_for_slack\<close>,
  and the Python string and regular-expression primitives they call.

  A Python \<^verbatim>\<open>str\<close> is modelled as a \<^typ>\<open>string\<close>; a \<^typ>\<open>char\<close> stands for
  the code point of the same number, so the model covers the texts whose code points
  are below 256. A list access \<^verbatim>\<open>xs[i]\<close> raises \<^verbatim>\<open>IndexError\<close> out of range:
  the functions that index a list return an \<^typ>\<open>'a option\<close>, with \<^term>\<open>None\<close> for
  the raised exception.
\<close>

subsection \<open>Python primitives\<close>

text \<open>\<^verbatim>\<open>str.isspace\<close> on one character; the same set is the class \<^verbatim>\<open>\s\<close> of \<^verbatim>\<open>re\<close>.\<close>

definition isspace :: "char \<Rightarrow> bool" where
  "isspace c = (c \<in> set [CHR 0x09, CHR 0x0A, CHR 0x0B, CHR 0x0C, CHR 0x0D,
                          CHR 0x1C, CHR 0x1D, CHR 0x1E, CHR 0x1F, CHR 0x20,
                          CHR 0x85, CHR 0xA0])"

text \<open>\<^verbatim>\<open>s.strip()\<close>\<close>

definition strip :: "string \<Rightarrow> string" where
  "strip s = rev (dropWhile isspace (rev (dropWhile isspace s)))"

text \<open>\<^verbatim>\<open>s.startswith(p)\<close> and \<^verbatim>\<open>s.endswith(p)\<close>\<close>

definition startswith :: "string \<Rightarrow> string \<Rightarrow> bool" where
  "startswith s p = (take (length p) s = p)"

definition endswith :: "string \<Rightarrow> string \<Rightarrow> bool" where
  "endswith s p = (length p \<le> length s \<and> drop (length s - length p) s = p)"

text \<open>
  \<^verbatim>\<open>s.split(sep)\<close> for a separator of one character. \<open>split_from\<close> reads the
  text from the left with the piece begun so far; the result is never empty.
\<close>

fun split_from :: "char \<Rightarrow> string \<Rightarrow> string \<Rightarrow> string list" where
  "split_from sep piece [] = [piece]"
| "split_from sep piece (c # cs) =
     (if c = sep then piece # split_from sep [] cs
      else split_from sep (piece @ [c]) cs)"

definition py_split :: "char \<Rightarrow> string \<Rightarrow> string list" where
  "py_split sep s = split_from sep [] s"

text \<open>\<^verbatim>\<open>sep.join(xs)\<close>\<close>

fun join :: "string \<Rightarrow> string list \<Rightarrow> string" where
  "join sep [] = []"
| "join sep [x] = x"
| "join sep (x # y # ys) = x @ sep @ join sep (y # ys)"

text \<open>\<^verbatim>\<open>s.ljust(w)\<close>: pads with spaces on the right, never truncates.\<close>

definition ljust :: "nat \<Rightarrow> string \<Rightarrow> string" where
  "ljust w s = s @ replicate (w - length s) (CHR '' '')"

text \<open>\<^verbatim>\<open>cell.replace('*', '')\<close>\<close>

definition remove_stars :: "string \<Rightarrow> string" where
  "remove_stars s = filter (\<lambda>c. c \<noteq> CHR ''*'') s"

text \<open>\<^verbatim>\<open>xs[1:-1]\<close>: a slice never raises.\<close>

definition slice_inner :: "'a list \<Rightarrow> 'a list" where
  "slice_inner xs = butlast (tl xs)"

text \<open>\<^verbatim>\<open>xs[i]\<close> and \<^verbatim>\<open>xs[i] = v\<close> for \<^verbatim>\<open>i >= 0\<close>: \<^term>\<open>None\<close> is \<^verbatim>\<open>IndexError\<close>.\<close>

definition index :: "'a list \<Rightarrow> nat \<Rightarrow> 'a option" where
  "index xs i = (if i < length xs then Some (xs ! i) else None)"

definition store :: "'a list \<Rightarrow> nat \<Rightarrow> 'a \<Rightarrow> 'a list option" where
  "store xs i v = (if i < length xs then Some (xs[i := v]) else None)"

subsection \<open>The two regular expressions\<close>

text \<open>
  \<^verbatim>\<open>re.sub(r'\*\*(.*?)\*\*', r'*\1*', text)\<close>. After an opening \<^verbatim>\<open>**\<close>, the lazy
  group tries the closing \<^verbatim>\<open>**\<close> first and otherwise takes one more character,
  which \<^verbatim>\<open>.\<close> refuses when it is a line feed. \<open>find_close\<close> returns the group and
  the text after the match.
\<close>

fun find_close :: "string \<Rightarrow> (string \<times> string) option" where
  "find_close [] = None"
| "find_close (c # cs) =
     (if startswith (c # cs) ''**'' then Some ([], drop 2 (c # cs))
      else if c = CHR 0x0A then None
      else map_option (\<lambda>(m, r). (c # m, r)) (find_close cs))"

text \<open>
  The substitution scans from the left: at a match it writes the replacement and goes
  on after the match, elsewhere it copies one character.
\<close>

function re_sub_bold :: "string \<Rightarrow> string" where
  "re_sub_bold [] = []"
| "re_sub_bold (c # cs) =
     (if startswith (c # cs) ''**'' then
        (case find_close (drop 2 (c # cs)) of
           Some (m, r) \<Rightarrow> ''*'' @ m @ ''*'' @ re_sub_bold r
         | None \<Rightarrow> c # re_sub_bold cs)
      else c # re_sub_bold cs)"
  by pat_completeness auto
termination
proof -
  have close_shorter: "length r \<le> length s" if "find_close s = Some (m, r)" for s m r
    using that
    by (induction s arbitrary: m r) (auto simp: startswith_def split: if_splits)
  show ?thesis
    by (relation "measure length") (auto dest!: close_shorter)
qed

text \<open>
  \<^verbatim>\<open>re.match(r'^\|[\s\-|:]+\|$', current_line)\<close>: a pipe, one character of the
  class, then more of the class up to a pipe at the end of the string (\<^verbatim>\<open>$\<close> also
  matches before a final line feed).
\<close>

definition sep_class :: "char \<Rightarrow> bool" where
  "sep_class c = (isspace c \<or> c = CHR ''-'' \<or> c = CHR ''|'' \<or> c = CHR '':'')"

fun sep_tail :: "string \<Rightarrow> bool" where
  "sep_tail [] = False"
| "sep_tail (c # cs) =
     ((c = CHR ''|'' \<and> (cs = [] \<or> cs = [CHR 0x0A])) \<or> (sep_class c \<and> sep_tail cs))"

definition is_separator :: "string \<Rightarrow> bool" where
  "is_separator s =
     (case s of c # d # cs \<Rightarrow> c = CHR ''|'' \<and> sep_class d \<and> sep_tail cs | _ \<Rightarrow> False)"

subsection \<open>format\_table\_for\_slack\<close>

text \<open>\<^verbatim>\<open>[cell.strip() for cell in line.split('|')[1:-1]]\<close>\<close>

definition parse_row :: "string \<Rightarrow> string list" where
  "parse_row line = map strip (slice_inner (py_split (CHR ''|'') line))"

text \<open>
  The width loops: \<^verbatim>\<open>for i, cell in enumerate(row)\<close> inside \<^verbatim>\<open>for row in rows\<close>,
  updating \<^verbatim>\<open>col_widths[i]\<close> in place when \<^verbatim>\<open>i < num_cols\<close>.
\<close>

fun width_cells :: "nat \<Rightarrow> (nat \<times> string) list \<Rightarrow> nat list \<Rightarrow> nat list option" where
  "width_cells num_cols [] col_widths = Some col_widths"
| "width_cells num_cols ((i, cell) # rest) col_widths =
     (if i < num_cols then
        do { old \<leftarrow> index col_widths i;
             col_widths' \<leftarrow> store col_widths i (max old (length (remove_stars cell)));
             width_cells num_cols rest col_widths' }
      else width_cells num_cols rest col_widths)"

fun width_rows :: "nat \<Rightarrow> string list list \<Rightarrow> nat list \<Rightarrow> nat list option" where
  "width_rows num_cols [] col_widths = Some col_widths"
| "width_rows num_cols (row # rows) col_widths =
     do { col_widths' \<leftarrow> width_cells num_cols (enumerate 0 row) col_widths;
          width_rows num_cols rows col_widths' }"

text \<open>
  \<^verbatim>\<open>num_cols = len(rows[0]); col_widths = [0] * num_cols\<close> and the width loops;
  returns \<^verbatim>\<open>(num_cols, col_widths)\<close>.
\<close>

definition calc_col_widths :: "string list list \<Rightarrow> (nat \<times> nat list) option" where
  "calc_col_widths rows =
     do { row0 \<leftarrow> index rows 0;
          let num_cols = length row0;
          col_widths \<leftarrow> width_rows num_cols rows (replicate num_cols 0);
          Some (num_cols, col_widths) }"

text \<open>The cells of one rendered row: \<^verbatim>\<open>display_cell.ljust(col_widths[i])\<close> when \<^verbatim>\<open>i < num_cols\<close>.\<close>

fun format_cells :: "nat \<Rightarrow> nat list \<Rightarrow> (nat \<times> string) list \<Rightarrow> string list option" where
  "format_cells num_cols col_widths [] = Some []"
| "format_cells num_cols col_widths ((i, cell) # rest) =
     (if i < num_cols then
        do { w \<leftarrow> index col_widths i;
             formatted_cells \<leftarrow> format_cells num_cols col_widths rest;
             Some (ljust w (remove_stars cell) # formatted_cells) }
      else format_cells num_cols col_widths rest)"

text \<open>\<^verbatim>\<open>['-' * col_widths[i] for i in range(num_cols)]\<close>\<close>

fun separator_cells :: "nat list \<Rightarrow> nat list \<Rightarrow> string list option" where
  "separator_cells col_widths [] = Some []"
| "separator_cells col_widths (i # rest) =
     do { w \<leftarrow> index col_widths i;
          cells \<leftarrow> separator_cells col_widths rest;
          Some (replicate w (CHR ''-'') # cells) }"

text \<open>
  \<^verbatim>\<open>for row_idx, row in enumerate(rows)\<close>: the rendered row, and after the first
  row the separator row when \<^verbatim>\<open>len(rows) > 1\<close>.
\<close>

fun format_rows ::
  "nat \<Rightarrow> nat list \<Rightarrow> nat \<Rightarrow> (nat \<times> string list) list \<Rightarrow> string list option" where
  "format_rows num_cols col_widths len_rows [] = Some []"
| "format_rows num_cols col_widths len_rows ((row_idx, row) # rest) =
     do { formatted_cells \<leftarrow> format_cells num_cols col_widths (enumerate 0 row);
          separator \<leftarrow>
            (if row_idx = 0 \<and> 1 < len_rows then
               do { cells \<leftarrow> separator_cells col_widths [0..<num_cols];
                    Some [join ''-|-'' cells] }
             else Some []);
          formatted_rows \<leftarrow> format_rows num_cols col_widths len_rows rest;
          Some (join '' | '' formatted_cells # separator @ formatted_rows) }"

definition format_table_for_slack :: "string list \<Rightarrow> string list option" where
  "format_table_for_slack table_lines =
     (if table_lines = [] then Some []
      else
        let rows = map parse_row table_lines in
        if rows = [] then Some []
        else
          do { (num_cols, col_widths) \<leftarrow> calc_col_widths rows;
               format_rows num_cols col_widths (length rows) (enumerate 0 rows) })"

subsection \<open>translate\_markdown\_for\_slack\<close>

text \<open>The test that opens a table block (line 139) and the test of the inner loop (line 144).\<close>

definition is_table_start :: "string \<Rightarrow> bool" where
  "is_table_start line =
     (CHR ''|'' \<in> set line \<and> startswith (strip line) ''|'' \<and> endswith (strip line) ''|'')"

definition is_table_line :: "string \<Rightarrow> bool" where
  "is_table_line line = (CHR ''|'' \<in> set line \<and> startswith (strip line) ''|'')"

text \<open>
  The inner \<^verbatim>\<open>while\<close> loop, from the cursor \<open>i\<close>: returns \<^verbatim>\<open>table_lines\<close> and the
  cursor after the block.
\<close>

function collect_table :: "string list \<Rightarrow> nat \<Rightarrow> string list \<Rightarrow> (string list \<times> nat) option" where
  "collect_table lines i table_lines =
     (if i < length lines then
        (case index lines i of
           None \<Rightarrow> None
         | Some current \<Rightarrow>
             if is_table_line current then
               collect_table lines (i + 1)
                 (if is_separator (strip current) then table_lines
                  else table_lines @ [strip current])
             else Some (table_lines, i))
      else Some (table_lines, i))"
  by pat_completeness auto
termination
  by (relation "measure (\<lambda>(lines, i, table_lines). length lines - i)") auto

declare collect_table.simps [simp del]

text \<open>The outer \<^verbatim>\<open>while\<close> loop, from the cursor \<open>i\<close> with the lines written so far.\<close>

function scan_lines :: "string list \<Rightarrow> nat \<Rightarrow> string list \<Rightarrow> string list option" where
  "scan_lines lines i result_lines =
     (if i < length lines then
        (case index lines i of
           None \<Rightarrow> None
         | Some line \<Rightarrow>
             if is_table_start line then
               (case collect_table lines i [] of
                  None \<Rightarrow> None
                | Some (table_lines, j) \<Rightarrow>
                    if table_lines \<noteq> [] then
                      (case format_table_for_slack table_lines of
                         None \<Rightarrow> None
                       | Some formatted_table \<Rightarrow>
                           scan_lines lines j
                             (result_lines @ [''```''] @ formatted_table @ [''```'']))
                    else scan_lines lines j result_lines)
             else scan_lines lines (i + 1) (result_lines @ [line]))
      else Some result_lines)"
  by pat_completeness auto
termination
proof -
  have mono: "i \<le> j" if "collect_table lines i acc = Some (tl, j)" for lines i acc tl j
    using that
  proof (induction lines i acc rule: collect_table.induct)
    case (1 lines i table_lines)
    then show ?case
      by (subst (asm) (2) collect_table.simps)
         (auto simp: index_def split: if_splits dest: Suc_leD)
  qed
  have advance: "i < j"
    if "collect_table lines i acc = Some (tl, j)" "i < length lines" "is_table_start (lines ! i)"
    for lines i acc tl j
  proof -
    from that(3) have "is_table_line (lines ! i)"
      by (simp add: is_table_start_def is_table_line_def)
    with that(1,2) obtain acc' where "collect_table lines (i + 1) acc' = Some (tl, j)"
      by (subst (asm) collect_table.simps) (auto simp: index_def)
    from mono [OF this] show ?thesis by simp
  qed
  show ?thesis
    by (relation "measure (\<lambda>(lines, i, result_lines). length lines - i)")
       (auto simp: index_def split: if_splits dest: advance)
qed

declare scan_lines.simps [simp del]

definition translate_markdown_for_slack :: "string \<Rightarrow> string option" where
  "translate_markdown_for_slack text =
     do { let text' = re_sub_bold text;
          let lines = py_split (CHR 0x0A) text';
          result_lines \<leftarrow> scan_lines lines 0 [];
          Some (join [CHR 0x0A] result_lines) }"

subsection \<open>Notions used to state the properties\<close>

text \<open>
  These are not part of the program. \<open>has_dstar s\<close>: the text contains two adjacent
  asterisks. \<open>first_line s\<close>: the text up to its first line feed. \<open>has_bold_pair s\<close>:
  some \<^verbatim>\<open>**\<close> is followed, after it and on the same line, by another \<^verbatim>\<open>**\<close>.
  \<open>col_cells c rows\<close>: the lengths, asterisks removed, of the cells of index \<open>c\<close> in the
  rows that have more than \<open>c\<close> cells.
\<close>
fun has_dstar :: "string \<Rightarrow> bool" where
  "has_dstar [] = False"
| "has_dstar [a] = False"
| "has_dstar (a # b # s) = ((a = CHR ''*'' \<and> b = CHR ''*'') \<or> has_dstar (b # s))"

definition first_line :: "string \<Rightarrow> string" where
  "first_line s = takeWhile (\<lambda>c. c \<noteq> CHR 0x0A) s"

fun has_bold_pair :: "string \<Rightarrow> bool" where
  "has_bold_pair [] = False"
| "has_bold_pair (c # cs) =
     ((startswith (c # cs) ''**'' \<and> has_dstar (first_line (drop 2 (c # cs)))) \<or> has_bold_pair cs)"

definition col_cells :: "nat \<Rightarrow> string list list \<Rightarrow> nat set" where
  "col_cells c rows = (\<lambda>r. length (remove_stars (r ! c))) ` {r \<in> set rows. c < length r}"

text \<open>
  \<open>spans_closed p\<close>: the text \<open>p\<close> is made of characters other than the asterisk, of
  single asterisks each followed by a character other than the asterisk, and of complete
  spans, each a \<^verbatim>\<open>**\<close>, a content without line feed and the first \<^verbatim>\<open>**\<close> after it. A
  \<^verbatim>\<open>**\<close> that comes right after such a text opens a span; it does not close one.
\<close>

inductive spans_closed :: "string \<Rightarrow> bool" where
  empty: "spans_closed []"
| plain: "c \<noteq> CHR ''*'' \<Longrightarrow> spans_closed s \<Longrightarrow> spans_closed (c # s)"
| single: "c \<noteq> CHR ''*'' \<Longrightarrow> spans_closed (c # s) \<Longrightarrow> spans_closed (CHR ''*'' # c # s)"
| span: "CHR 0x0A \<notin> set m \<Longrightarrow> \<not> has_dstar (m @ ''*'') \<Longrightarrow> spans_closed s \<Longrightarrow>
         spans_closed (''**'' @ m @ ''**'' @ s)"

section \<open>Properties\<close>

subsection \<open>The emphasis rewrite\<close>

lemma startswith_dstar: "startswith s ''**'' \<longleftrightarrow> (\<exists>r. s = CHR ''*'' # CHR ''*'' # r)"
  by (cases s; cases "tl s") (auto simp: startswith_def)

lemma startswith_Cons2 [simp]:
  "startswith (a # b # r) ''**'' \<longleftrightarrow> a = CHR ''*'' \<and> b = CHR ''*''"
  by (auto simp: startswith_def)

lemma startswith_single [simp]: "\<not> startswith [a] ''**''" "\<not> startswith [] ''**''"
  by (auto simp: startswith_def)

lemma find_close_None_iff: "find_close s = None \<longleftrightarrow> \<not> has_dstar (first_line s)"
proof (induction s rule: has_dstar.induct)
  case (3 a b s)
  then show ?case by (auto simp: first_line_def)
next
  case 1
  then show ?case by (simp add: first_line_def)
next
  case (2 v)
  then show ?case by (simp add: first_line_def)
qed

lemma find_close_Some:
  "CHR 0x0A \<notin> set m \<Longrightarrow> \<not> has_dstar (m @ ''*'') \<Longrightarrow> find_close (m @ ''**'' @ r) = Some (m, r)"
proof (induction m)
  case Nil
  then show ?case by simp
next
  case (Cons a m)
  then show ?case by (cases m) auto
qed

lemma find_close_SomeD:
  "find_close s = Some (m, r) \<Longrightarrow> s = m @ ''**'' @ r \<and> CHR 0x0A \<notin> set m \<and> \<not> has_dstar (m @ ''*'')"
proof (induction s arbitrary: m rule: has_dstar.induct)
  case (3 a b s)
  then show ?case by (cases "find_close (b # s)") (auto split: if_splits)
next
  case 1
  then show ?case by simp
next
  case (2 v)
  then show ?case by (simp split: if_splits)
qed

lemma re_sub_bold_no_pair: "\<not> has_bold_pair s \<Longrightarrow> re_sub_bold s = s"
proof (induction s rule: re_sub_bold.induct)
  case 1
  then show ?case by simp
next
  case (2 c cs)
  from "2.prems" have np: "\<not> has_bold_pair cs" by simp
  show ?case
  proof (cases "startswith (c # cs) ''**''")
    case True
    with "2.prems" have none: "find_close (drop 2 (c # cs)) = None"
      by (simp add: find_close_None_iff)
    from "2.IH"(1) [OF True none np] True none show ?thesis
      by (simp del: drop_Suc_Cons drop_Cons_numeral)
  next
    case False
    from "2.IH"(3) [OF False np] False show ?thesis by simp
  qed
qed

lemma has_dstar_Cons: "has_dstar (a # s) \<longleftrightarrow> (a = CHR ''*'' \<and> startswith s ''*'') \<or> has_dstar s"
  by (cases s) (auto simp: startswith_def)

lemma no_dstar_first_line: "\<not> has_dstar s \<Longrightarrow> \<not> has_dstar (first_line s)"
  by (induction s rule: has_dstar.induct) (auto simp: first_line_def)

lemma no_dstar_no_pair: "\<not> has_dstar s \<Longrightarrow> \<not> has_bold_pair s"
  by (induction s rule: has_dstar.induct) (auto simp: startswith_def)

lemma find_close_append:
  "\<not> has_dstar (CHR ''*'' # post) \<Longrightarrow>
   find_close (s @ post) = map_option (\<lambda>(m, r). (m, r @ post)) (find_close s)"
proof (induction s rule: has_dstar.induct)
  case (3 a b s)
  then show ?case
    by (cases "find_close (b # s)") (auto split: if_splits)
next
  case 1
  then have "\<not> has_dstar (first_line post)"
    by (auto simp: has_dstar_Cons dest: no_dstar_first_line)
  then show ?case by (simp add: find_close_None_iff)
next
  case (2 v)
  then have "find_close post = None" "\<not> startswith post ''*''"
    by (auto simp: has_dstar_Cons find_close_None_iff dest: no_dstar_first_line)
  then show ?case 
    by (cases post) (auto simp: startswith_def)
qed

lemma re_sub_bold_append:
  "\<not> has_dstar (CHR ''*'' # post) \<Longrightarrow> re_sub_bold (s @ post) = re_sub_bold s @ post"
proof (induction s rule: re_sub_bold.induct)
  case 1
  then have "\<not> has_dstar post" by (simp add: has_dstar_Cons)
  then show ?case
    by (simp add: re_sub_bold_no_pair no_dstar_no_pair)
next
  case (2 c cs)
  note post = "2.prems"
  then have nostar: "\<not> startswith post ''*''" by (simp add: has_dstar_Cons)
  have sw: "startswith ((c # cs) @ post) ''**'' = startswith (c # cs) ''**''"
    using nostar by (cases cs; cases post) (auto simp: startswith_def)
  show ?case
  proof (cases "startswith (c # cs) ''**''")
    case False
    with "2.IH"(3) [OF False post] sw show ?thesis by simp
  next
    case True
    then obtain r where cs: "cs = CHR ''*'' # r" and c: "c = CHR ''*''"
      by (auto simp: startswith_dstar)
    have d2: "drop 2 (c # cs) = r" "drop 2 (c # cs @ post) = r @ post"
      by (simp_all add: cs)
    have True': "startswith (c # cs @ post) ''**''"
      using True sw by simp
    show ?thesis
    proof (cases "find_close r")
      case None
      then have fc: "find_close (r @ post) = None"
        using find_close_append [OF post, of r] by simp
      from None have "find_close (drop 2 (c # cs)) = None"
        by (simp only: d2)
      from "2.IH"(1) [OF True this post]
      have ih: "re_sub_bold (cs @ post) = re_sub_bold cs @ post" .
      have "re_sub_bold ((c # cs) @ post) = c # re_sub_bold (cs @ post)"
        using True' fc by (simp only: append_Cons re_sub_bold.simps d2 if_True option.case)
      also have "\<dots> = (c # re_sub_bold cs) @ post"
        by (simp only: ih append_Cons)
      also have "c # re_sub_bold cs = re_sub_bold (c # cs)"
        using True None by (simp only: re_sub_bold.simps d2 if_True option.case)
      finally show ?thesis .
    next
      case (Some mr)
      obtain m r' where mr: "mr = (m, r')" by (cases mr)
      have fc: "find_close (r @ post) = Some (m, r' @ post)"
        using find_close_append [OF post, of r] Some mr by simp
      from Some mr have fc0: "find_close (drop 2 (c # cs)) = Some (m, r')"
        by (simp only: d2)
      from "2.IH"(2) [OF True fc0 refl post]
      have ih: "re_sub_bold (r' @ post) = re_sub_bold r' @ post" .
      have "re_sub_bold ((c # cs) @ post) = ''*'' @ m @ ''*'' @ re_sub_bold (r' @ post)"
        using True' fc by (simp only: append_Cons re_sub_bold.simps d2 if_True option.case prod.case)
      also have "\<dots> = (''*'' @ m @ ''*'' @ re_sub_bold r') @ post"
        by (simp only: ih append_assoc)
      also have "''*'' @ m @ ''*'' @ re_sub_bold r' = re_sub_bold (c # cs)"
        using True fc0 by (simp only: re_sub_bold.simps if_True option.case prod.case)
      finally show ?thesis .
    qed
  qed
qed

lemma no_dstar_tl: "\<not> has_dstar s \<Longrightarrow> \<not> has_dstar (tl s)"
  by (cases s) (auto simp: has_dstar_Cons)

lemma no_pair_single_marker:
  "CHR ''*'' \<notin> set pre \<Longrightarrow> \<not> has_dstar post \<Longrightarrow> \<not> has_bold_pair (pre @ ''**'' @ post)"
proof (induction pre)
  case Nil
  then have a: "\<not> has_dstar (first_line post)" "\<not> has_dstar (first_line (tl post))"
    and b: "\<not> has_bold_pair post"
    by (auto dest: no_dstar_first_line no_dstar_tl no_dstar_no_pair)
  then show ?case
    by (cases post) (auto simp: startswith_def)
next
  case (Cons a pre)
  then show ?case by (auto simp: startswith_def)
qed

subsection \<open>Column widths\<close>

lemma width_cells_enumerate:
  "length ws = n \<Longrightarrow>
   \<exists>ws'. width_cells n (enumerate k row) ws = Some ws' \<and> length ws' = n \<and>
     (\<forall>c<n. ws' ! c = (if k \<le> c \<and> c < k + length row
                         then max (ws ! c) (length (remove_stars (row ! (c - k))))
                         else ws ! c))"
proof (induction row arbitrary: k ws)
  case Nil
  then show ?case by simp
next
  case (Cons x xs)
  show ?case
  proof (cases "k < n")
    case True
    let ?ws1 = "ws[k := max (ws ! k) (length (remove_stars x))]"
    have len1: "length ?ws1 = n" using Cons.prems by simp
    from Cons.IH [OF len1, of "Suc k"] obtain ws' where
      w: "width_cells n (enumerate (Suc k) xs) ?ws1 = Some ws'" and l: "length ws' = n"
      and v: "\<forall>c<n. ws' ! c = (if Suc k \<le> c \<and> c < Suc k + length xs
                         then max (?ws1 ! c) (length (remove_stars (xs ! (c - Suc k))))
                         else ?ws1 ! c)"
      by blast
    have step: "width_cells n (enumerate k (x # xs)) ws = Some ws'"
      using True Cons.prems w by (simp add: index_def store_def)
    have "ws' ! c = (if k \<le> c \<and> c < k + length (x # xs)
                         then max (ws ! c) (length (remove_stars ((x # xs) ! (c - k))))
                         else ws ! c)" if "c < n" for c
    proof -
      from v that have e: "ws' ! c = (if Suc k \<le> c \<and> c < Suc k + length xs
                         then max (?ws1 ! c) (length (remove_stars (xs ! (c - Suc k))))
                         else ?ws1 ! c)" by blast
      consider "c < k" | "c = k" | "k < c"
        by linarith
      then show ?thesis
      proof cases
        case 1
        with e Cons.prems show ?thesis by simp
      next
        case 2
        with e Cons.prems True show ?thesis by simp
      next
        case 3
        then have "(x # xs) ! (c - k) = xs ! (c - Suc k)"
          by (simp add: nth_Cons')
        with e 3 Cons.prems show ?thesis by auto
      qed
    qed
    with step l show ?thesis by blast
  next
    case False
    from Cons.IH [OF Cons.prems, of "Suc k"] obtain ws' where
      w: "width_cells n (enumerate (Suc k) xs) ws = Some ws'" and l: "length ws' = n"
      and v: "\<forall>c<n. ws' ! c = (if Suc k \<le> c \<and> c < Suc k + length xs
                         then max (ws ! c) (length (remove_stars (xs ! (c - Suc k))))
                         else ws ! c)"
      by blast
    have step: "width_cells n (enumerate k (x # xs)) ws = Some ws'"
      using False w by simp
    from v False have "\<forall>c<n. ws' ! c = (if k \<le> c \<and> c < k + length (x # xs)
                         then max (ws ! c) (length (remove_stars ((x # xs) ! (c - k))))
                         else ws ! c)"
      by auto
    with step l show ?thesis by blast
  qed
qed

lemma Max_insert_insert:
  "finite S \<Longrightarrow> Max (insert (a::nat) (insert b S)) = Max (insert (max a b) S)"
  by (cases "S = {}") (auto simp: max.assoc)

lemma col_cells_Cons:
  "col_cells c (row # rows) =
     (if c < length row then insert (length (remove_stars (row ! c))) (col_cells c rows)
      else col_cells c rows)"
  by (auto simp: col_cells_def)

lemma finite_col_cells [simp]: "finite (col_cells c rows)"
  by (simp add: col_cells_def)

lemma width_rows_Max:
  "length ws = n \<Longrightarrow>
   \<exists>ws'. width_rows n rows ws = Some ws' \<and> length ws' = n \<and>
     (\<forall>c<n. ws' ! c = Max (insert (ws ! c) (col_cells c rows)))"
proof (induction rows arbitrary: ws)
  case Nil
  then show ?case by (simp add: col_cells_def)
next
  case (Cons row rows)
  from width_cells_enumerate [OF Cons.prems, of 0 row] obtain ws1 where
    w1: "width_cells n (enumerate 0 row) ws = Some ws1" and l1: "length ws1 = n"
    and v1: "\<forall>c<n. ws1 ! c = (if c < length row
                         then max (ws ! c) (length (remove_stars (row ! c)))
                         else ws ! c)"
    by auto
  from Cons.IH [OF l1] obtain ws' where
    w: "width_rows n rows ws1 = Some ws'" and l: "length ws' = n"
    and v: "\<forall>c<n. ws' ! c = Max (insert (ws1 ! c) (col_cells c rows))"
    by blast
  have step: "width_rows n (row # rows) ws = Some ws'"
    using w1 w by simp
  have "ws' ! c = Max (insert (ws ! c) (col_cells c (row # rows)))" if "c < n" for c
  proof (cases "c < length row")
    case True
    with v v1 that have "ws' ! c =
        Max (insert (max (ws ! c) (length (remove_stars (row ! c)))) (col_cells c rows))"
      by simp
    also have "\<dots> = Max (insert (ws ! c) (insert (length (remove_stars (row ! c))) (col_cells c rows)))"
      by (rule Max_insert_insert [symmetric]) simp
    finally show ?thesis using True by (simp add: col_cells_Cons)
  next
    case False
    with v v1 that show ?thesis by (simp add: col_cells_Cons)
  qed
  with step l show ?case by blast
qed

lemma calc_col_widths_Max:
  assumes "rows \<noteq> []"
  shows "\<exists>ws. calc_col_widths rows = Some (length (rows ! 0), ws) \<and>
           length ws = length (rows ! 0) \<and>
           (\<forall>c < length (rows ! 0). ws ! c = Max (col_cells c rows))"
proof -
  let ?n = "length (rows ! 0)"
  from width_rows_Max [of "replicate ?n 0" ?n rows] obtain ws where
    w: "width_rows ?n rows (replicate ?n 0) = Some ws" and l: "length ws = ?n"
    and v: "\<forall>c<?n. ws ! c = Max (insert (replicate ?n 0 ! c) (col_cells c rows))"
    by auto
  have "ws ! c = Max (col_cells c rows)" if "c < ?n" for c
  proof -
    from assms that have "rows ! 0 \<in> {r \<in> set rows. c < length r}" by (cases rows) auto
    then have ne: "col_cells c rows \<noteq> {}" unfolding col_cells_def by blast
    from v that have "ws ! c = Max (insert 0 (col_cells c rows))" by simp
    also have "\<dots> = Max (col_cells c rows)" using ne by simp
    finally show ?thesis .
  qed
  moreover have "calc_col_widths rows = Some (?n, ws)"
    using assms w by (simp add: calc_col_widths_def index_def)
  ultimately show ?thesis using l by blast
qed

subsection \<open>Rendering\<close>

lemma format_cells_Some:
  "n \<le> length ws \<Longrightarrow>
   format_cells n ws ps =
     Some (map (\<lambda>(i, cell). ljust (ws ! i) (remove_stars cell)) (filter (\<lambda>(i, cell). i < n) ps))"
  by (induction ps) (auto simp: index_def)

lemma format_cells_no_cols: "format_cells 0 ws ps = Some []"
  by (induction ps) auto

lemma separator_cells_Some:
  "list_all (\<lambda>i. i < length ws) cols \<Longrightarrow>
   separator_cells ws cols = Some (map (\<lambda>i. replicate (ws ! i) (CHR ''-'')) cols)"
  by (induction cols) (auto simp: index_def)

lemma separator_cells_upt:
  "n \<le> length ws \<Longrightarrow>
   separator_cells ws [0..<n] = Some (map (\<lambda>i. replicate (ws ! i) (CHR ''-'')) [0..<n])"
  by (rule separator_cells_Some) (simp add: list_all_iff)

lemma format_rows_tail:
  "n \<le> length ws \<Longrightarrow> 0 < k \<Longrightarrow>
   \<exists>out. format_rows n ws len (enumerate k rows) = Some out \<and> length out = length rows"
proof (induction rows arbitrary: k)
  case Nil
  then show ?case by simp
next
  case (Cons row rows)
  from Cons.IH [OF Cons.prems(1), of "Suc k"] obtain out where
    "format_rows n ws len (enumerate (Suc k) rows) = Some out" "length out = length rows"
    by auto
  with Cons.prems show ?case
    by (simp add: format_cells_Some)
qed

lemma format_rows_head:
  assumes "n \<le> length ws"
  shows "\<exists>hdr body. format_rows n ws len (enumerate 0 (row # rows)) =
           Some (hdr # (if 1 < len then [join ''-|-'' (map (\<lambda>i. replicate (ws ! i) (CHR ''-'')) [0..<n])]
                        else []) @ body) \<and>
         length body = length rows"
proof -
  from format_rows_tail [OF assms, of "Suc 0" len rows] obtain body where
    "format_rows n ws len (enumerate (Suc 0) rows) = Some body" "length body = length rows"
    by auto
  with assms show ?thesis
    by (simp add: format_cells_Some separator_cells_upt)
qed

lemma format_rows_total:
  assumes "n \<le> length ws"
  shows "\<exists>out. format_rows n ws len (enumerate 0 rows) = Some out"
proof (cases rows)
  case Nil
  then show ?thesis by simp
next
  case (Cons row rest)
  with format_rows_head [OF assms, of len row rest] show ?thesis by auto
qed

lemma format_table_for_slack_total: "\<exists>out. format_table_for_slack table_lines = Some out"
proof (cases "table_lines = []")
  case True
  then show ?thesis by (simp add: format_table_for_slack_def)
next
  case False
  then have ne: "map parse_row table_lines \<noteq> []" by simp
  from calc_col_widths_Max [OF ne] obtain ws where
    w: "calc_col_widths (map parse_row table_lines) = Some (length (map parse_row table_lines ! 0), ws)"
    and l: "length ws = length (map parse_row table_lines ! 0)"
    by auto
  from l have "length (map parse_row table_lines ! 0) \<le> length ws" by simp
  from format_rows_total [OF this, of "length (map parse_row table_lines)" "map parse_row table_lines"] w False
  show ?thesis
    by (auto simp: format_table_for_slack_def Let_def)
qed

lemma format_rows_no_cols:
  "format_rows 0 ws len (enumerate k rows) =
     Some (replicate (length rows + (if k = 0 \<and> rows \<noteq> [] \<and> 1 < len then 1 else 0)) [])"
  by (induction rows arbitrary: k) (auto simp: format_cells_no_cols)

subsection \<open>The two loops over the lines\<close>

lemma collect_table_eq:
  "collect_table lines i acc =
     Some (acc @ filter (\<lambda>s. \<not> is_separator s) (map strip (takeWhile is_table_line (drop i lines))),
           i + length (takeWhile is_table_line (drop i lines)))"
proof (induction lines i acc rule: collect_table.induct)
  case (1 lines i table_lines)
  show ?case
  proof (cases "i < length lines")
    case False
    then show ?thesis by (subst collect_table.simps) simp
  next
    case True
    then have d: "drop i lines = lines ! i # drop (Suc i) lines"
      by (simp add: Cons_nth_drop_Suc)
    have ix: "index lines i = Some (lines ! i)" using True by (simp add: index_def)
    show ?thesis
    proof (cases "is_table_line (lines ! i)")
      case False
      with True ix d show ?thesis by (subst collect_table.simps) simp
    next
      case tl: True
      from "1.IH" [OF True ix tl] True ix tl d show ?thesis
        by (subst collect_table.simps) simp
    qed
  qed
qed

lemma table_start_line: "is_table_start l \<Longrightarrow> is_table_line l"
  by (simp add: is_table_start_def is_table_line_def)

lemma scan_lines_total: "\<exists>out. scan_lines lines i acc = Some out"
proof (induction "length lines - i" arbitrary: i acc rule: less_induct)
  case less
  show ?case
  proof (cases "i < length lines")
    case False
    then show ?thesis by (subst scan_lines.simps) simp
  next
    case True
    then have d: "drop i lines = lines ! i # drop (Suc i) lines"
      by (simp add: Cons_nth_drop_Suc)
    have ix: "index lines i = Some (lines ! i)" using True by (simp add: index_def)
    show ?thesis
    proof (cases "is_table_start (lines ! i)")
      case False
      from True have "length lines - (i + 1) < length lines - i" by simp
      from less [OF this, of "acc @ [lines ! i]"] obtain out where
        "scan_lines lines (i + 1) (acc @ [lines ! i]) = Some out" by auto
      with True ix False show ?thesis by (subst scan_lines.simps) simp
    next
      case st: True
      then have tl: "is_table_line (lines ! i)" by (rule table_start_line)
      define j where "j = i + length (takeWhile is_table_line (drop i lines))"
      define tls where "tls = filter (\<lambda>s. \<not> is_separator s) (map strip (takeWhile is_table_line (drop i lines)))"
      have ct: "collect_table lines i [] = Some (tls, j)"
        by (simp add: collect_table_eq j_def tls_def)
      have "i < j" using d tl by (simp add: j_def)
      with True have m: "length lines - j < length lines - i" by simp
      obtain ft where ft: "format_table_for_slack tls = Some ft"
        using format_table_for_slack_total by blast
      from less [OF m, of "acc @ [''```''] @ ft @ [''```'']"] less [OF m, of acc]
      obtain o1 o2 where "scan_lines lines j (acc @ [''```''] @ ft @ [''```'']) = Some o1"
        "scan_lines lines j acc = Some o2" by auto
      with True ix st ct ft show ?thesis by (subst scan_lines.simps) simp
    qed
  qed
qed

lemma scan_lines_plain:
  "list_all (\<lambda>l. \<not> is_table_start l) lines \<Longrightarrow> scan_lines lines i acc = Some (acc @ drop i lines)"
proof (induction "length lines - i" arbitrary: i acc)
  case 0
  then show ?case by (subst scan_lines.simps) simp
next
  case (Suc n)
  then have lt: "i < length lines" by simp
  then have d: "drop i lines = lines ! i # drop (Suc i) lines"
    by (simp add: Cons_nth_drop_Suc)
  have ix: "index lines i = Some (lines ! i)" using lt by (simp add: index_def)
  from Suc.prems lt have ns: "\<not> is_table_start (lines ! i)"
    by (simp add: list_all_length)
  from Suc.hyps(2) have "n = length lines - (i + 1)" by simp
  from Suc.hyps(1) [OF this Suc.prems, of "acc @ [lines ! i]"] lt ix ns d
  show ?case by (subst scan_lines.simps) simp
qed

lemma split_from_nonempty: "split_from sep piece s \<noteq> []"
  by (induction s arbitrary: piece) auto

lemma join_Cons: "xs \<noteq> [] \<Longrightarrow> join sep (x # xs) = x @ sep @ join sep xs"
  by (cases xs) auto

lemma join_split_from: "join [sep] (split_from sep piece s) = piece @ s"
  by (induction s arbitrary: piece) (auto simp: join_Cons split_from_nonempty)

lemma join_py_split: "join [sep] (py_split sep s) = s"
  by (simp add: py_split_def join_split_from)

subsection \<open>Separator rows\<close>

lemma strip_last_not_space: "strip l \<noteq> [] \<Longrightarrow> \<not> isspace (last (strip l))"
proof -
  assume ne: "strip l \<noteq> []"
  let ?ys = "dropWhile isspace (rev (dropWhile isspace l))"
  from ne have "?ys \<noteq> []" by (simp add: strip_def)
  then have "\<not> isspace (hd ?ys)" by (rule hd_dropWhile)
  moreover have "last (strip l) = hd ?ys"
    using \<open>?ys \<noteq> []\<close> by (simp add: strip_def last_rev)
  ultimately show ?thesis by simp
qed

lemma set_strip: "set (strip l) \<subseteq> set l"
proof -
  have "set (strip l) = set (dropWhile isspace (rev (dropWhile isspace l)))"
    by (simp add: strip_def)
  also have "\<dots> \<subseteq> set (rev (dropWhile isspace l))"
    by (auto dest: set_dropWhileD)
  also have "\<dots> \<subseteq> set l"
    by (auto dest: set_dropWhileD)
  finally show ?thesis .
qed

lemma sep_tail_last: "sep_tail cs \<Longrightarrow> cs \<noteq> [] \<and> (last cs = CHR ''|'' \<or> last cs = CHR 0x0A)"
  by (induction cs) auto

lemma drop_last1: "s \<noteq> [] \<Longrightarrow> drop (length s - 1) s = [last s]"
  by (cases s rule: rev_cases) simp_all

lemma separator_is_table_start:
  assumes "is_separator (strip l)"
  shows "is_table_start l"
proof -
  from assms obtain c d cs where s: "strip l = c # d # cs" and c: "c = CHR ''|''" and t: "sep_tail cs"
    by (auto simp: is_separator_def split: list.splits)
  from sep_tail_last [OF t] have cs: "cs \<noteq> []" and "last cs = CHR ''|'' \<or> last cs = CHR 0x0A"
    by auto
  then have "last (strip l) = CHR ''|'' \<or> last (strip l) = CHR 0x0A"
    using s by simp
  moreover have "\<not> isspace (last (strip l))"
    using s by (intro strip_last_not_space) simp
  ultimately have l: "last (strip l) = CHR ''|''"
    by (auto simp: isspace_def)
  have "strip l \<noteq> []" using s by simp
  from drop_last1 [OF this] l have e: "endswith (strip l) ''|''"
    using s by (simp add: endswith_def)
  have b: "startswith (strip l) ''|''"
    using s c by (simp add: startswith_def)
  have "CHR ''|'' \<in> set (strip l)" using s c by simp
  with set_strip have "CHR ''|'' \<in> set l" by blast
  with b e show ?thesis by (simp add: is_table_start_def)
qed

subsection \<open>The rewrite, line by line\<close>

lemma re_sub_bold_plain: "c \<noteq> CHR ''*'' \<Longrightarrow> re_sub_bold (c # s) = c # re_sub_bold s"
  by (cases s) (simp_all add: startswith_def)

lemma re_sub_bold_single:
  "\<not> startswith s ''*'' \<Longrightarrow> re_sub_bold (CHR ''*'' # s) = CHR ''*'' # re_sub_bold s"
  by (cases s) (simp_all add: startswith_def)

lemma re_sub_bold_span:
  "CHR 0x0A \<notin> set m \<Longrightarrow> \<not> has_dstar (m @ ''*'') \<Longrightarrow>
   re_sub_bold (''**'' @ m @ ''**'' @ r) = ''*'' @ m @ ''*'' @ re_sub_bold r"
  using find_close_Some [of m r] by simp

lemma re_sub_bold_append_gen:
  assumes fc: "\<And>s. find_close (s @ x) = map_option (\<lambda>(m, r). (m, r @ x)) (find_close s)"
    and ns: "\<not> startswith x ''*''"
  shows "re_sub_bold (s @ x) = re_sub_bold s @ re_sub_bold x"
proof (induction s rule: re_sub_bold.induct)
  case 1
  show ?case by simp
next
  case (2 c cs)
  have sw: "startswith ((c # cs) @ x) ''**'' = startswith (c # cs) ''**''"
    using ns by (cases cs; cases x) (auto simp: startswith_def)
  show ?case
  proof (cases "startswith (c # cs) ''**''")
    case False
    with "2.IH"(3) [OF False] sw show ?thesis by simp
  next
    case True
    then obtain r where cs: "cs = CHR ''*'' # r" and c: "c = CHR ''*''"
      by (auto simp: startswith_dstar)
    have d2: "drop 2 (c # cs) = r" "drop 2 (c # cs @ x) = r @ x"
      by (simp_all add: cs)
    have True': "startswith (c # cs @ x) ''**''"
      using True sw by simp
    show ?thesis
    proof (cases "find_close r")
      case None
      then have fcx: "find_close (r @ x) = None"
        using fc [of r] by simp
      from None have "find_close (drop 2 (c # cs)) = None"
        by (simp only: d2)
      from "2.IH"(1) [OF True this]
      have ih: "re_sub_bold (cs @ x) = re_sub_bold cs @ re_sub_bold x" .
      have "re_sub_bold ((c # cs) @ x) = c # re_sub_bold (cs @ x)"
        using True' fcx by (simp only: append_Cons re_sub_bold.simps d2 if_True option.case)
      also have "\<dots> = (c # re_sub_bold cs) @ re_sub_bold x"
        by (simp only: ih append_Cons)
      also have "c # re_sub_bold cs = re_sub_bold (c # cs)"
        using True None by (simp only: re_sub_bold.simps d2 if_True option.case)
      finally show ?thesis .
    next
      case (Some mr)
      obtain m r' where mr: "mr = (m, r')" by (cases mr)
      have fcx: "find_close (r @ x) = Some (m, r' @ x)"
        using fc [of r] Some mr by simp
      from Some mr have fc0: "find_close (drop 2 (c # cs)) = Some (m, r')"
        by (simp only: d2)
      from "2.IH"(2) [OF True fc0 refl]
      have ih: "re_sub_bold (r' @ x) = re_sub_bold r' @ re_sub_bold x" .
      have "re_sub_bold ((c # cs) @ x) = ''*'' @ m @ ''*'' @ re_sub_bold (r' @ x)"
        using True' fcx by (simp only: append_Cons re_sub_bold.simps d2 if_True option.case prod.case)
      also have "\<dots> = (''*'' @ m @ ''*'' @ re_sub_bold r') @ re_sub_bold x"
        by (simp only: ih append_assoc)
      also have "''*'' @ m @ ''*'' @ re_sub_bold r' = re_sub_bold (c # cs)"
        using True fc0 by (simp only: re_sub_bold.simps if_True option.case prod.case)
      finally show ?thesis .
    qed
  qed
qed

lemma find_close_line_feed:
  "find_close (s @ CHR 0x0A # b) = map_option (\<lambda>(m, r). (m, r @ CHR 0x0A # b)) (find_close s)"
proof (induction s rule: has_dstar.induct)
  case 1
  show ?case by (simp add: startswith_def)
next
  case (2 a)
  show ?case by (simp add: startswith_def)
next
  case (3 a b' s)
  then show ?case
    by (cases "find_close (b' # s)") (auto split: if_splits)
qed

lemma re_sub_bold_line_feed:
  "re_sub_bold (a @ CHR 0x0A # b) = re_sub_bold a @ CHR 0x0A # re_sub_bold b"
proof -
  have "re_sub_bold (a @ CHR 0x0A # b) = re_sub_bold a @ re_sub_bold (CHR 0x0A # b)"
    by (rule re_sub_bold_append_gen) (simp_all add: find_close_line_feed startswith_def)
  moreover have "re_sub_bold (CHR 0x0A # b) = CHR 0x0A # re_sub_bold b"
    by (rule re_sub_bold_plain) simp
  ultimately show ?thesis by (simp only:)
qed

lemma re_sub_bold_join:
  "re_sub_bold (join [CHR 0x0A] ls) = join [CHR 0x0A] (map re_sub_bold ls)"
proof (induction ls)
  case Nil
  show ?case by simp
next
  case (Cons x xs)
  show ?case
  proof (cases "xs = []")
    case True
    then show ?thesis by (simp del: re_sub_bold.simps)
  next
    case False
    with Cons show ?thesis
      by (simp add: join_Cons re_sub_bold_line_feed del: re_sub_bold.simps)
  qed
qed

lemma spans_closed_append:
  "spans_closed p \<Longrightarrow> re_sub_bold (p @ x) = re_sub_bold p @ re_sub_bold x"
proof (induction p rule: spans_closed.induct)
  case empty
  show ?case by simp
next
  case (plain c s)
  then show ?case by (simp add: re_sub_bold_plain del: re_sub_bold.simps)
next
  case (single c s)
  have "re_sub_bold (CHR ''*'' # (c # s) @ x) = CHR ''*'' # re_sub_bold ((c # s) @ x)"
    using single(1) by (intro re_sub_bold_single) (simp add: startswith_def)
  moreover have "re_sub_bold (CHR ''*'' # c # s) = CHR ''*'' # re_sub_bold (c # s)"
    using single(1) by (intro re_sub_bold_single) (simp add: startswith_def)
  ultimately show ?case using single.IH by (simp del: re_sub_bold.simps)
next
  case (span m s)
  from re_sub_bold_span [OF span(1,2), of "s @ x"] re_sub_bold_span [OF span(1,2), of s] span.IH
  show ?case by (simp del: re_sub_bold.simps)
qed

lemma re_sub_bold_unclosed: "\<not> has_dstar rl \<Longrightarrow> re_sub_bold (''**'' @ rl) = ''**'' @ rl"
proof -
  assume h: "\<not> has_dstar rl"
  have "CHR ''*'' \<notin> set []" by simp
  from no_pair_single_marker [OF this h] have "\<not> has_bold_pair ([] @ ''**'' @ rl)" .
  then have "re_sub_bold ([] @ ''**'' @ rl) = [] @ ''**'' @ rl" by (rule re_sub_bold_no_pair)
  then show ?thesis by (simp only: append_Nil)
qed

lemma re_sub_bold_filter:
  "filter (\<lambda>c. c \<noteq> CHR ''*'') (re_sub_bold s) = filter (\<lambda>c. c \<noteq> CHR ''*'') s"
proof (induction s rule: re_sub_bold.induct)
  case 1
  show ?case by simp
next
  case (2 c cs)
  show ?case
  proof (cases "startswith (c # cs) ''**''")
    case False
    with "2.IH"(3) show ?thesis by simp
  next
    case True
    show ?thesis
    proof (cases "find_close (drop 2 (c # cs))")
      case None
      with True "2.IH"(1) show ?thesis by (simp del: drop_Suc_Cons drop_Cons_numeral)
    next
      case (Some mr)
      obtain m r where mr: "mr = (m, r)" by (cases mr)
      from Some mr have fc: "find_close (drop 2 (c # cs)) = Some (m, r)" by simp
      from find_close_SomeD [OF fc] have d: "drop 2 (c # cs) = m @ ''**'' @ r" by simp
      from True obtain t where t: "c # cs = CHR ''*'' # CHR ''*'' # t"
        by (auto simp: startswith_dstar)
      with d have cs: "c # cs = ''**'' @ m @ ''**'' @ r" by simp
      have "re_sub_bold (c # cs) = ''*'' @ m @ ''*'' @ re_sub_bold r"
        using True fc by (simp only: re_sub_bold.simps if_True option.case prod.case)
      with "2.IH"(2) [OF True fc refl] show ?thesis
        by (simp only: cs) simp
    qed
  qed
qed

lemma in_set_re_sub_bold:
  "c \<noteq> CHR ''*'' \<Longrightarrow> c \<in> set (re_sub_bold s) \<longleftrightarrow> c \<in> set s"
proof -
  assume "c \<noteq> CHR ''*''"
  then have "c \<in> set (re_sub_bold s) \<longleftrightarrow> c \<in> set (filter (\<lambda>c. c \<noteq> CHR ''*'') (re_sub_bold s))"
    by simp
  also have "\<dots> \<longleftrightarrow> c \<in> set (filter (\<lambda>c. c \<noteq> CHR ''*'') s)"
    by (simp only: re_sub_bold_filter)
  also have "\<dots> \<longleftrightarrow> c \<in> set s" using \<open>c \<noteq> CHR ''*''\<close> by simp
  finally show ?thesis .
qed

lemma marker_line_rewrite:
  assumes "spans_closed cur" and "\<not> has_dstar rl"
  shows "re_sub_bold (cur @ ''**'' @ rl) = re_sub_bold cur @ ''**'' @ rl"
proof -
  from assms(1) have "re_sub_bold (cur @ ''**'' @ rl) = re_sub_bold cur @ re_sub_bold (''**'' @ rl)"
    by (rule spans_closed_append)
  with re_sub_bold_unclosed [OF assms(2)] show ?thesis by (simp only:)
qed

subsection \<open>The table tests after the rewrite\<close>

lemma startswith_pipe: "startswith s ''|'' \<longleftrightarrow> s \<noteq> [] \<and> hd s = CHR ''|''"
  by (cases s) (auto simp: startswith_def)

lemma endswith_pipe: "endswith s ''|'' \<longleftrightarrow> s \<noteq> [] \<and> last s = CHR ''|''"
proof (cases "s = []")
  case True
  then show ?thesis by (simp add: endswith_def)
next
  case False
  from drop_last1 [OF this] False show ?thesis
    by (cases s) (auto simp: endswith_def)
qed

lemma strip_decomp:
  "\<exists>a b. l = a @ strip l @ b \<and> list_all isspace a \<and> list_all isspace b"
proof -
  let ?x = "dropWhile isspace l"
  have "rev (takeWhile isspace (rev ?x) @ dropWhile isspace (rev ?x)) = rev (rev ?x)"
    by (simp only: takeWhile_dropWhile_id)
  then have "rev (dropWhile isspace (rev ?x)) @ rev (takeWhile isspace (rev ?x)) = ?x"
    by (simp only: rev_append rev_rev_ident)
  then have x: "?x = strip l @ rev (takeWhile isspace (rev ?x))"
    by (simp only: strip_def)
  have "l = takeWhile isspace l @ ?x" by simp
  with x have "l = takeWhile isspace l @ strip l @ rev (takeWhile isspace (rev ?x))"
    by simp
  moreover have "list_all isspace (takeWhile isspace l)"
    by (auto simp: list_all_iff dest: set_takeWhileD)
  moreover have "list_all isspace (rev (takeWhile isspace (rev ?x)))"
    by (auto simp: list_all_iff dest: set_takeWhileD)
  ultimately show ?thesis by blast
qed

lemma last_dropWhile: "dropWhile P xs \<noteq> [] \<Longrightarrow> last (dropWhile P xs) = last xs"
  by (induction xs) (auto split: if_splits)

lemma strip_hd_not_space: "strip l \<noteq> [] \<Longrightarrow> \<not> isspace (hd (strip l))"
proof -
  assume ne: "strip l \<noteq> []"
  let ?x = "dropWhile isspace l"
  let ?ys = "dropWhile isspace (rev ?x)"
  from ne have ys: "?ys \<noteq> []" by (simp add: strip_def)
  have x: "?x \<noteq> []"
  proof
    assume "?x = []"
    then have "?ys = []" by (simp only: rev.simps dropWhile.simps)
    with ys show False by (simp only:) simp
  qed
  have "hd (strip l) = last ?ys" using ys by (simp add: strip_def hd_rev)
  also have "\<dots> = last (rev ?x)" using ys by (rule last_dropWhile)
  also have "\<dots> = hd ?x" using x by (simp add: last_rev)
  finally have "hd (strip l) = hd ?x" .
  moreover from x have "\<not> isspace (hd ?x)" by (rule hd_dropWhile)
  ultimately show ?thesis by simp
qed

lemma dropWhile_all: "list_all P a \<Longrightarrow> dropWhile P (a @ ys) = dropWhile P ys"
  by (induction a) auto

lemma strip_sandwich:
  assumes "list_all isspace a" and "list_all isspace b"
    and "m = [] \<or> (\<not> isspace (hd m) \<and> \<not> isspace (last m))"
  shows "strip (a @ m @ b) = m"
proof (cases "m = []")
  case True
  with assms(1,2) have "\<forall>x\<in>set (a @ m @ b). isspace x"
    by (auto simp: list_all_iff)
  then have e: "dropWhile isspace (a @ m @ b) = []"
    by (simp only: dropWhile_eq_Nil_conv)
  show ?thesis unfolding strip_def e using True by simp
next
  case False
  with assms(3) have h: "\<not> isspace (hd m)" and l: "\<not> isspace (last m)" by auto
  from False h have "dropWhile isspace (m @ b) = m @ b" by (cases m) auto
  with assms(1) have d: "dropWhile isspace (a @ m @ b) = m @ b"
    by (simp add: dropWhile_all)
  from False l have "dropWhile isspace (rev m) = rev m"
    by (cases m rule: rev_cases) auto
  with assms(2) have "dropWhile isspace (rev b @ rev m) = rev m"
    by (simp add: dropWhile_all)
  with d show ?thesis by (simp add: strip_def)
qed

lemma re_sub_bold_Nil_iff: "re_sub_bold s = [] \<longleftrightarrow> s = []"
  by (cases s) (auto split: option.splits)

lemma hd_re_sub_bold: "s \<noteq> [] \<Longrightarrow> hd (re_sub_bold s) = hd s"
  by (cases s) (auto split: option.splits simp: startswith_dstar)

lemma last_re_sub_bold: "s \<noteq> [] \<Longrightarrow> last (re_sub_bold s) = last s"
proof (induction s rule: re_sub_bold.induct)
  case 1
  then show ?case by simp
next
  case (2 c cs)
  have copy: "last (c # re_sub_bold cs) = last (c # cs)"
    if "cs \<noteq> [] \<Longrightarrow> last (re_sub_bold cs) = last cs"
    using that by (cases "cs = []") (simp_all add: re_sub_bold_Nil_iff del: re_sub_bold.simps)
  show ?case
  proof (cases "startswith (c # cs) ''**''")
    case False
    with copy [OF "2.IH"(3)] show ?thesis by simp
  next
    case True
    show ?thesis
    proof (cases "find_close (drop 2 (c # cs))")
      case None
      with True copy [OF "2.IH"(1)] show ?thesis
        by (simp del: drop_Suc_Cons drop_Cons_numeral)
    next
      case (Some mr)
      obtain m r where mr: "mr = (m, r)" by (cases mr)
      from Some mr have fc: "find_close (drop 2 (c # cs)) = Some (m, r)" by simp
      from find_close_SomeD [OF fc] have d: "drop 2 (c # cs) = m @ ''**'' @ r" by simp
      from True obtain t where t: "c # cs = CHR ''*'' # CHR ''*'' # t"
        by (auto simp: startswith_dstar)
      with d have cs: "c # cs = ''**'' @ m @ ''**'' @ r" by simp
      have e: "re_sub_bold (c # cs) = ''*'' @ m @ ''*'' @ re_sub_bold r"
        using True fc by (simp only: re_sub_bold.simps if_True option.case prod.case)
      show ?thesis
      proof (cases "r = []")
        case True
        with e cs show ?thesis by (simp only:) simp
      next
        case False
        with "2.IH"(2) [OF True fc refl] have "last (re_sub_bold r) = last r" by simp
        with False e cs show ?thesis
          by (simp only:) (simp add: re_sub_bold_Nil_iff del: re_sub_bold.simps)
      qed
    qed
  qed
qed

lemma isspace_not_star: "isspace c \<Longrightarrow> c \<noteq> CHR ''*''"
  by (auto simp: isspace_def)

lemma re_sub_bold_spaces_before: "list_all isspace a \<Longrightarrow> re_sub_bold (a @ t) = a @ re_sub_bold t"
  by (induction a) (simp_all add: re_sub_bold_plain isspace_not_star del: re_sub_bold.simps)

lemma no_dstar_star_free: "CHR ''*'' \<notin> set b \<Longrightarrow> \<not> has_dstar b"
  by (induction b rule: has_dstar.induct) auto

lemma re_sub_bold_spaces_after:
  assumes "list_all isspace b"
  shows "re_sub_bold (m @ b) = re_sub_bold m @ b"
proof -
  from assms have sf: "CHR ''*'' \<notin> set b"
    by (auto simp: list_all_iff dest: isspace_not_star)
  then have "\<not> startswith b ''*''" by (cases b) (auto simp: startswith_def)
  with sf have "\<not> has_dstar (CHR ''*'' # b)"
    by (simp add: has_dstar_Cons no_dstar_star_free)
  then show ?thesis by (rule re_sub_bold_append)
qed

lemma strip_re_sub_bold: "strip (re_sub_bold l) = re_sub_bold (strip l)"
proof -
  from strip_decomp [of l] obtain a b where
    l: "l = a @ strip l @ b" and a: "list_all isspace a" and b: "list_all isspace b"
    by blast
  have "re_sub_bold (a @ strip l @ b) = a @ re_sub_bold (strip l) @ b"
    using a b by (simp add: re_sub_bold_spaces_before re_sub_bold_spaces_after del: re_sub_bold.simps)
  with l have r: "re_sub_bold l = a @ re_sub_bold (strip l) @ b" by simp
  have "re_sub_bold (strip l) = [] \<or>
        (\<not> isspace (hd (re_sub_bold (strip l))) \<and> \<not> isspace (last (re_sub_bold (strip l))))"
  proof (cases "strip l = []")
    case True
    then show ?thesis by simp
  next
    case False
    with strip_hd_not_space [of l] strip_last_not_space [of l] show ?thesis
      by (simp add: hd_re_sub_bold last_re_sub_bold)
  qed
  from strip_sandwich [OF a b this] r show ?thesis by simp
qed

lemma is_table_line_re_sub_bold: "is_table_line (re_sub_bold l) = is_table_line l"
proof (cases "strip l = []")
  case True
  then show ?thesis
    by (simp add: is_table_line_def strip_re_sub_bold startswith_def)
next
  case False
  then show ?thesis
    by (simp add: is_table_line_def strip_re_sub_bold startswith_pipe in_set_re_sub_bold
          re_sub_bold_Nil_iff hd_re_sub_bold)
qed

lemma is_table_start_re_sub_bold: "is_table_start (re_sub_bold l) = is_table_start l"
proof (cases "strip l = []")
  case True
  then show ?thesis
    by (simp add: is_table_start_def strip_re_sub_bold startswith_def)
next
  case False
  then show ?thesis
    by (simp add: is_table_start_def strip_re_sub_bold startswith_pipe endswith_pipe
          in_set_re_sub_bold re_sub_bold_Nil_iff hd_re_sub_bold last_re_sub_bold)
qed

lemma no_line_feed_map:
  "list_all (\<lambda>x. CHR 0x0A \<notin> set x) ls \<Longrightarrow>
   list_all (\<lambda>x. CHR 0x0A \<notin> set x) (map re_sub_bold ls)"
  by (induction ls) (simp_all add: in_set_re_sub_bold del: re_sub_bold.simps)

lemma no_start_map:
  "list_all (\<lambda>x. \<not> is_table_start x) ls \<Longrightarrow>
   list_all (\<lambda>x. \<not> is_table_start x) (map re_sub_bold ls)"
  by (induction ls) (simp_all add: is_table_start_re_sub_bold del: re_sub_bold.simps)

subsection \<open>Lines outside the table blocks\<close>

lemma split_from_line:
  "sep \<notin> set l \<Longrightarrow> split_from sep piece (l @ sep # rest) = (piece @ l) # split_from sep [] rest"
  by (induction l arbitrary: piece) auto

lemma split_from_last: "sep \<notin> set l \<Longrightarrow> split_from sep piece l = [piece @ l]"
  by (induction l arbitrary: piece) auto

lemma py_split_join:
  "ls \<noteq> [] \<Longrightarrow> list_all (\<lambda>x. sep \<notin> set x) ls \<Longrightarrow> py_split sep (join [sep] ls) = ls"
proof (induction ls)
  case Nil
  then show ?case by simp
next
  case (Cons x xs)
  show ?case
  proof (cases "xs = []")
    case True
    with Cons.prems show ?thesis by (simp add: py_split_def split_from_last)
  next
    case False
    with Cons show ?thesis
      by (simp add: py_split_def join_Cons split_from_line)
  qed
qed

lemma scan_lines_extends: "\<exists>rest. scan_lines lines i acc = Some (acc @ rest)"
proof (induction "length lines - i" arbitrary: i acc rule: less_induct)
  case less
  show ?case
  proof (cases "i < length lines")
    case False
    then show ?thesis by (subst scan_lines.simps) simp
  next
    case True
    then have d: "drop i lines = lines ! i # drop (Suc i) lines"
      by (simp add: Cons_nth_drop_Suc)
    have ix: "index lines i = Some (lines ! i)" using True by (simp add: index_def)
    show ?thesis
    proof (cases "is_table_start (lines ! i)")
      case False
      from True have "length lines - (i + 1) < length lines - i" by simp
      from less [OF this, of "acc @ [lines ! i]"] obtain rest where
        "scan_lines lines (i + 1) (acc @ [lines ! i]) = Some ((acc @ [lines ! i]) @ rest)" by auto
      with True ix False show ?thesis by (subst scan_lines.simps) simp
    next
      case st: True
      then have tl: "is_table_line (lines ! i)" by (rule table_start_line)
      define j where "j = i + length (takeWhile is_table_line (drop i lines))"
      define tls where "tls = filter (\<lambda>s. \<not> is_separator s) (map strip (takeWhile is_table_line (drop i lines)))"
      have ct: "collect_table lines i [] = Some (tls, j)"
        by (simp add: collect_table_eq j_def tls_def)
      have "i < j" using d tl by (simp add: j_def)
      with True have m: "length lines - j < length lines - i" by simp
      obtain ft where ft: "format_table_for_slack tls = Some ft"
        using format_table_for_slack_total by blast
      from less [OF m, of "acc @ [''```''] @ ft @ [''```'']"] less [OF m, of acc]
      obtain r1 r2 where
        "scan_lines lines j (acc @ [''```''] @ ft @ [''```'']) = Some ((acc @ [''```''] @ ft @ [''```'']) @ r1)"
        "scan_lines lines j acc = Some (acc @ r2)" by auto
      with True ix st ct ft show ?thesis by (subst scan_lines.simps) simp
    qed
  qed
qed

lemma run_stays:
  assumes "i < length A" and "A = [] \<or> \<not> P (last A) \<or> B = [] \<or> \<not> P (hd B)"
  shows "i + length (takeWhile P (drop i (A @ B))) \<le> length A"
proof -
  from assms(1) have d: "drop i (A @ B) = drop i A @ B" by simp
  from assms(1) have ne: "drop i A \<noteq> []" by simp
  show ?thesis
  proof (cases "\<forall>x\<in>set (drop i A). P x")
    case True
    from ne have "last (drop i A) \<in> set (drop i A)" by (rule last_in_set)
    moreover from assms(1) have "last (drop i A) = last A" by simp
    ultimately have "P (last A)" using True by auto
    with assms ne have "B = [] \<or> \<not> P (hd B)" by auto
    then have "takeWhile P B = []" by (cases B) auto
    with True have "takeWhile P (drop i A @ B) = drop i A" by simp
    with d assms(1) show ?thesis by simp
  next
    case False
    then obtain x where "x \<in> set (drop i A)" "\<not> P x" by blast
    then have "takeWhile P (drop i A @ B) = takeWhile P (drop i A)"
      by (rule takeWhile_append1)
    moreover have "length (takeWhile P (drop i A)) \<le> length (drop i A)"
      by (rule length_takeWhile_le)
    ultimately show ?thesis using d assms(1) by simp
  qed
qed

lemma scan_reaches:
  assumes b: "A = [] \<or> \<not> is_table_line (last A) \<or> B = [] \<or> \<not> is_table_line (hd B)"
  shows "i \<le> length A \<Longrightarrow> \<exists>acc'. scan_lines (A @ B) i acc = scan_lines (A @ B) (length A) acc'"
proof (induction "length A - i" arbitrary: i acc rule: less_induct)
  case less
  let ?lines = "A @ B"
  show ?case
  proof (cases "i = length A")
    case True
    then show ?thesis by blast
  next
    case False
    with less.prems have lt: "i < length A" by simp
    then have ltl: "i < length ?lines" by simp
    then have d: "drop i ?lines = ?lines ! i # drop (Suc i) ?lines"
      by (simp only: Cons_nth_drop_Suc)
    have ix: "index ?lines i = Some (?lines ! i)" using ltl by (simp only: index_def if_True)
    show ?thesis
    proof (cases "is_table_start (?lines ! i)")
      case False
      from lt have "length A - (i + 1) < length A - i" "i + 1 \<le> length A" by simp_all
      from less.hyps [OF this, of "acc @ [?lines ! i]"] obtain acc' where
        "scan_lines ?lines (i + 1) (acc @ [?lines ! i]) = scan_lines ?lines (length A) acc'" by blast
      moreover have "scan_lines ?lines i acc = scan_lines ?lines (i + 1) (acc @ [?lines ! i])"
        using ltl ix False by (subst scan_lines.simps) (simp del: nth_append)
      ultimately show ?thesis by auto
    next
      case st: True
      then have tl: "is_table_line (?lines ! i)" by (rule table_start_line)
      define j where "j = i + length (takeWhile is_table_line (drop i ?lines))"
      define tls where "tls = filter (\<lambda>s. \<not> is_separator s) (map strip (takeWhile is_table_line (drop i ?lines)))"
      have ct: "collect_table ?lines i [] = Some (tls, j)"
        by (simp only: collect_table_eq j_def tls_def append_Nil)
      have ij: "i < j" using tl by (simp only: j_def d) simp
      have jA: "j \<le> length A" unfolding j_def using lt b by (rule run_stays)
      from ij lt have m: "length A - j < length A - i" by simp
      obtain ft where ft: "format_table_for_slack tls = Some ft"
        using format_table_for_slack_total by blast
      from less.hyps [OF m jA, of "acc @ [''```''] @ ft @ [''```'']"] less.hyps [OF m jA, of acc]
      obtain a1 a2 where
        a1: "scan_lines ?lines j (acc @ [''```''] @ ft @ [''```'']) = scan_lines ?lines (length A) a1"
        and a2: "scan_lines ?lines j acc = scan_lines ?lines (length A) a2" by blast
      have "scan_lines ?lines i acc =
              (if tls \<noteq> [] then scan_lines ?lines j (acc @ [''```''] @ ft @ [''```''])
               else scan_lines ?lines j acc)"
        using ltl ix st ct ft by (subst scan_lines.simps) (simp del: nth_append)
      with a1 a2 show ?thesis by (cases "tls = []") auto
    qed
  qed
qed

lemma scan_copy:
  "list_all (\<lambda>x. \<not> is_table_start x) R \<Longrightarrow>
   scan_lines (A @ R @ B) (length A) acc = scan_lines (A @ R @ B) (length A + length R) (acc @ R)"
proof (induction R arbitrary: A acc)
  case Nil
  show ?case by simp
next
  case (Cons r R)
  let ?lines = "A @ (r # R) @ B"
  have ltl: "length A < length ?lines" by simp
  have nth: "?lines ! length A = r" by simp
  have ix: "index ?lines (length A) = Some r" using ltl nth by (simp add: index_def)
  from Cons.prems have ns: "\<not> is_table_start r" and rest: "list_all (\<lambda>x. \<not> is_table_start x) R"
    by simp_all
  have "scan_lines ?lines (length A) acc = scan_lines ?lines (length A + 1) (acc @ [r])"
    using ltl ix ns by (subst scan_lines.simps) simp
  also have "\<dots> = scan_lines ((A @ [r]) @ R @ B) (length (A @ [r])) (acc @ [r])"
    by simp
  also have "\<dots> = scan_lines ((A @ [r]) @ R @ B) (length (A @ [r]) + length R) ((acc @ [r]) @ R)"
    using rest by (rule Cons.IH)
  finally show ?case by simp
qed

lemma scan_line_kept:
  assumes "list_all (\<lambda>x. \<not> is_table_start x) (takeWhile is_table_line (rev (L1 @ [l])))"
  shows "\<exists>o1 o2. scan_lines (L1 @ [l] @ L2) 0 [] = Some (o1 @ [l] @ o2)"
proof (cases "is_table_line l")
  case False
  then have ns: "list_all (\<lambda>x. \<not> is_table_start x) [l]"
    by (auto dest: table_start_line)
  from False have "L1 = [] \<or> \<not> is_table_line (last L1) \<or> [l] @ L2 = [] \<or> \<not> is_table_line (hd ([l] @ L2))"
    by simp
  from scan_reaches [OF this, of 0 "[]"] obtain acc' where
    "scan_lines (L1 @ [l] @ L2) 0 [] = scan_lines (L1 @ [l] @ L2) (length L1) acc'" by auto
  also have "\<dots> = scan_lines (L1 @ [l] @ L2) (length L1 + length [l]) (acc' @ [l])"
    using ns by (rule scan_copy)
  finally obtain rest where "scan_lines (L1 @ [l] @ L2) 0 [] = Some ((acc' @ [l]) @ rest)"
    using scan_lines_extends by metis
  then show ?thesis by auto
next
  case True
  define T where "T = takeWhile is_table_line (rev L1)"
  define D where "D = dropWhile is_table_line (rev L1)"
  have "rev L1 = T @ D" by (simp add: T_def D_def)
  then have "rev (rev L1) = rev (T @ D)" by (simp only:)
  then have L1: "L1 = rev D @ rev T" by simp
  from True have "takeWhile is_table_line (rev (L1 @ [l])) = l # T" by (simp add: T_def)
  with assms have ns: "list_all (\<lambda>x. \<not> is_table_start x) (rev T @ [l])" by simp
  have "rev D = [] \<or> \<not> is_table_line (last (rev D))"
  proof (cases "D = []")
    case True
    then show ?thesis by simp
  next
    case False
    then have "\<not> is_table_line (hd D)" unfolding D_def by (rule hd_dropWhile)
    with False show ?thesis by (simp add: last_rev)
  qed
  then have "rev D = [] \<or> \<not> is_table_line (last (rev D)) \<or>
             (rev T @ [l]) @ L2 = [] \<or> \<not> is_table_line (hd ((rev T @ [l]) @ L2))"
    by blast
  from scan_reaches [OF this, of 0 "[]"] obtain acc' where
    "scan_lines (rev D @ (rev T @ [l]) @ L2) 0 [] =
       scan_lines (rev D @ (rev T @ [l]) @ L2) (length (rev D)) acc'" by auto
  also have "\<dots> = scan_lines (rev D @ (rev T @ [l]) @ L2) (length (rev D) + length (rev T @ [l])) (acc' @ rev T @ [l])"
    using ns by (rule scan_copy)
  finally obtain rest where
    "scan_lines (rev D @ (rev T @ [l]) @ L2) 0 [] = Some ((acc' @ rev T @ [l]) @ rest)"
    using scan_lines_extends by metis
  with L1 have "scan_lines (L1 @ [l] @ L2) 0 [] = Some ((acc' @ rev T) @ [l] @ rest)"
    by simp
  then show ?thesis by blast
qed

section \<open>The claims\<close>

subsection \<open>C3: the emphasis rewrite\<close>

text \<open>
  C3 says that the content of a rewritten span may contain line feeds. It may not: the
  pattern is compiled without \<^verbatim>\<open>re.DOTALL\<close>, so \<^verbatim>\<open>.\<close> stops at a line feed and a
  \<^verbatim>\<open>**\<close> whose closing \<^verbatim>\<open>**\<close> is on a later line is left as it is.
\<close>

theorem bold_across_lines_counterexample:
  "re_sub_bold ''**a\<newline>b**'' = ''**a\<newline>b**'' \<and> re_sub_bold ''**a\<newline>b**'' \<noteq> ''*a\<newline>b*''"
  by code_simp

text \<open>
  C3, amended: the emphasis rewrite reads the text from the left. A character other than
  an asterisk, and an asterisk not followed by an asterisk, are copied. At \<^verbatim>\<open>**\<close>
  followed by a content \<open>m\<close> without line feed and the first \<^verbatim>\<open>**\<close> after it (non-greedy:
  \<^verbatim>\<open>**\<close> does not occur in \<open>m\<close> followed by an asterisk; \<open>m\<close> may be empty), the span is
  replaced by \<^verbatim>\<open>*m*\<close> and the rewrite goes on after the span. At \<^verbatim>\<open>**\<close> with no
  \<^verbatim>\<open>**\<close> after it on the same line, the first asterisk is copied and the rewrite goes on
  at the second.
\<close>

theorem bold_rewrite_spans:
  "re_sub_bold [] = [] \<and>
   (c \<noteq> CHR ''*'' \<longrightarrow> re_sub_bold (c # s) = c # re_sub_bold s) \<and>
   (\<not> startswith s ''*'' \<longrightarrow> re_sub_bold (CHR ''*'' # s) = CHR ''*'' # re_sub_bold s) \<and>
   (CHR 0x0A \<notin> set m \<and> \<not> has_dstar (m @ ''*'') \<longrightarrow>
      re_sub_bold (''**'' @ m @ ''**'' @ r) = ''*'' @ m @ ''*'' @ re_sub_bold r) \<and>
   (\<not> has_dstar (first_line s) \<longrightarrow>
      re_sub_bold (''**'' @ s) = CHR ''*'' # re_sub_bold (CHR ''*'' # s))"
proof -
  have a: "re_sub_bold (c # s) = c # re_sub_bold s" if "c \<noteq> CHR ''*''"
    using that by (cases s) (simp_all add: startswith_def)
  have b: "re_sub_bold (CHR ''*'' # s) = CHR ''*'' # re_sub_bold s" if "\<not> startswith s ''*''"
    using that by (cases s) (simp_all add: startswith_def)
  have c: "re_sub_bold (''**'' @ m @ ''**'' @ r) = ''*'' @ m @ ''*'' @ re_sub_bold r"
    if "CHR 0x0A \<notin> set m" "\<not> has_dstar (m @ ''*'')"
    using find_close_Some [OF that, of r] by simp
  have d: "re_sub_bold (''**'' @ s) = CHR ''*'' # re_sub_bold (CHR ''*'' # s)"
    if "\<not> has_dstar (first_line s)"
  proof -
    from that have "find_close s = None" by (simp add: find_close_None_iff)
    then show ?thesis by simp
  qed
  from a b c d show ?thesis by simp
qed

theorem bold_rewrite_spans_witness:
  "CHR ''a'' \<noteq> CHR ''*'' \<and> \<not> startswith ''x'' ''*'' \<and> CHR 0x0A \<notin> set ''hi'' \<and>
   \<not> has_dstar (''hi'' @ ''*'') \<and> \<not> has_dstar (first_line ''x'') \<and>
   re_sub_bold (CHR ''a'' # ''x'') = CHR ''a'' # re_sub_bold ''x'' \<and>
   re_sub_bold (CHR ''*'' # ''x'') = CHR ''*'' # re_sub_bold ''x'' \<and>
   re_sub_bold (''**'' @ ''hi'' @ ''**'' @ ''!'') = ''*'' @ ''hi'' @ ''*'' @ re_sub_bold ''!'' \<and>
   re_sub_bold (''**'' @ ''x'') = CHR ''*'' # re_sub_bold (CHR ''*'' # ''x'')"
  using bold_rewrite_spans [of "CHR ''a''" "''x''" "''hi''" "''!''"]
  by (simp add: startswith_def first_line_def)

subsection \<open>C9: unclosed markers\<close>

text \<open>
  C9 says that a \<^verbatim>\<open>**\<close> with no closing \<^verbatim>\<open>**\<close> after it is left verbatim in the
  output. The emphasis rewrite leaves it, but a line taken into a table block is
  rendered cell by cell with every asterisk removed (\<^verbatim>\<open>cell.replace('*', '')\<close>), and
  the marker goes with them.
\<close>

theorem table_cell_marker_counterexample:
  "\<not> has_dstar ''a|'' \<and> re_sub_bold ''|**a|'' = ''|**a|'' \<and>
   translate_markdown_for_slack ''|**a|'' = Some ''```\<newline>a\<newline>```''"
  by code_simp

text \<open>
  C9, amended. Take a text given by its lines, and on one line a \<^verbatim>\<open>**\<close> that opens a
  span (before it, the line has only plain characters, single asterisks and complete
  spans: \<open>spans_closed cur\<close>) and has no \<^verbatim>\<open>**\<close> after it on the line. The emphasis
  rewrite leaves this \<^verbatim>\<open>**\<close> and the rest of its line verbatim, whatever the other
  lines are. When moreover the line is not taken into a table block (in the run of
  table lines that ends with it, if any, no line opens a block), the output of the
  transform has the line with the \<^verbatim>\<open>**\<close> verbatim. In particular the transform leaves
  \<^verbatim>\<open>**unclosed\<close> unchanged.
\<close>

theorem unclosed_marker_verbatim:
  assumes "spans_closed cur" and "\<not> has_dstar rl"
  shows "re_sub_bold (join [CHR 0x0A] (L1 @ [cur @ ''**'' @ rl] @ L2)) =
           join [CHR 0x0A] (map re_sub_bold L1 @ [re_sub_bold cur @ ''**'' @ rl] @ map re_sub_bold L2) \<and>
         (list_all (\<lambda>x. CHR 0x0A \<notin> set x) (L1 @ [cur @ ''**'' @ rl] @ L2) \<and>
          list_all (\<lambda>x. \<not> is_table_start x)
            (takeWhile is_table_line (rev (L1 @ [cur @ ''**'' @ rl]))) \<longrightarrow>
          (\<exists>o1 o2. translate_markdown_for_slack (join [CHR 0x0A] (L1 @ [cur @ ''**'' @ rl] @ L2)) =
                     Some (join [CHR 0x0A] (o1 @ [re_sub_bold cur @ ''**'' @ rl] @ o2)))) \<and>
         translate_markdown_for_slack ''**unclosed'' = Some ''**unclosed''"
proof -
  let ?l = "cur @ ''**'' @ rl"
  let ?l' = "re_sub_bold cur @ ''**'' @ rl"
  let ?ls = "L1 @ [?l] @ L2"
  have l': "re_sub_bold ?l = ?l'" using assms by (rule marker_line_rewrite)
  have rw: "re_sub_bold (join [CHR 0x0A] ?ls) =
              join [CHR 0x0A] (map re_sub_bold L1 @ [?l'] @ map re_sub_bold L2)"
    by (simp only: re_sub_bold_join map_append list.map l')
  have tr: "\<exists>o1 o2. translate_markdown_for_slack (join [CHR 0x0A] ?ls) =
                     Some (join [CHR 0x0A] (o1 @ [?l'] @ o2))"
    if nl: "list_all (\<lambda>x. CHR 0x0A \<notin> set x) ?ls"
      and run: "list_all (\<lambda>x. \<not> is_table_start x) (takeWhile is_table_line (rev (L1 @ [?l])))"
  proof -
    let ?ls' = "map re_sub_bold L1 @ [?l'] @ map re_sub_bold L2"
    have eq: "?ls' = map re_sub_bold ?ls" by (simp only: map_append list.map l')
    from nl have "list_all (\<lambda>x. CHR 0x0A \<notin> set x) (map re_sub_bold ?ls)"
      by (rule no_line_feed_map)
    then have nl': "list_all (\<lambda>x. CHR 0x0A \<notin> set x) ?ls'" by (simp only: eq)
    have "?ls' \<noteq> []" by simp
    from py_split_join [OF this nl'] rw
    have sp: "py_split (CHR 0x0A) (re_sub_bold (join [CHR 0x0A] ?ls)) = ?ls'"
      by (simp only:)
    have "takeWhile is_table_line (rev (map re_sub_bold L1 @ [?l'])) =
            map re_sub_bold (takeWhile is_table_line (rev (L1 @ [?l])))"
    proof -
      have "map re_sub_bold L1 @ [?l'] = map re_sub_bold (L1 @ [?l])"
        by (simp only: map_append list.map l')
      then have "rev (map re_sub_bold L1 @ [?l']) = map re_sub_bold (rev (L1 @ [?l]))"
        by (simp only: rev_map)
      moreover have "takeWhile is_table_line (map re_sub_bold xs) =
                       map re_sub_bold (takeWhile is_table_line xs)" for xs
        by (simp add: takeWhile_map comp_def is_table_line_re_sub_bold del: re_sub_bold.simps)
      ultimately show ?thesis by (simp only:)
    qed
    with no_start_map [OF run] have "list_all (\<lambda>x. \<not> is_table_start x)
                     (takeWhile is_table_line (rev (map re_sub_bold L1 @ [?l'])))"
      by (simp only:)
    from scan_line_kept [OF this, of "map re_sub_bold L2"] obtain o1 o2 where
      "scan_lines ?ls' 0 [] = Some (o1 @ [?l'] @ o2)" by blast
    with sp have "translate_markdown_for_slack (join [CHR 0x0A] ?ls) =
                    Some (join [CHR 0x0A] (o1 @ [?l'] @ o2))"
      by (simp add: translate_markdown_for_slack_def del: re_sub_bold.simps)
    then show ?thesis by blast
  qed
  have c: "translate_markdown_for_slack ''**unclosed'' = Some ''**unclosed''"
    by code_simp
  from rw tr c show ?thesis by blast
qed

theorem unclosed_marker_verbatim_witness:
  "spans_closed ''| **a** '' \<and> \<not> has_dstar ''b'' \<and>
   list_all (\<lambda>x. CHR 0x0A \<notin> set x) ([''|t|'', ''x''] @ [''| **a** '' @ ''**'' @ ''b''] @ []) \<and>
   list_all (\<lambda>x. \<not> is_table_start x)
     (takeWhile is_table_line (rev ([''|t|'', ''x''] @ [''| **a** '' @ ''**'' @ ''b'']))) \<and>
   re_sub_bold (join [CHR 0x0A] ([''|t|'', ''x''] @ [''| **a** '' @ ''**'' @ ''b''] @ [])) =
     join [CHR 0x0A] (map re_sub_bold [''|t|'', ''x''] @ [re_sub_bold ''| **a** '' @ ''**'' @ ''b''] @ map re_sub_bold []) \<and>
   (\<exists>o1 o2. translate_markdown_for_slack (join [CHR 0x0A] ([''|t|'', ''x''] @ [''| **a** '' @ ''**'' @ ''b''] @ [])) =
              Some (join [CHR 0x0A] (o1 @ [re_sub_bold ''| **a** '' @ ''**'' @ ''b''] @ o2))) \<and>
   translate_markdown_for_slack ''|t|\<newline>x\<newline>| **a** **b'' = Some ''```\<newline>t\<newline>```\<newline>x\<newline>| *a* **b''"
proof -
  have "spans_closed '' ''" by (intro spans_closed.plain spans_closed.empty) simp
  then have "spans_closed (''**'' @ ''a'' @ ''**'' @ '' '')"
    by (intro spans_closed.span) simp_all
  then have "spans_closed (CHR ''|'' # CHR '' '' # ''**'' @ ''a'' @ ''**'' @ '' '')"
    by (intro spans_closed.plain) simp_all
  then have h1: "spans_closed ''| **a** ''" by simp
  have h2: "\<not> has_dstar ''b''" by simp
  have h3: "list_all (\<lambda>x. CHR 0x0A \<notin> set x) ([''|t|'', ''x''] @ [''| **a** '' @ ''**'' @ ''b''] @ [])"
    by simp
  have h4: "list_all (\<lambda>x. \<not> is_table_start x)
     (takeWhile is_table_line (rev ([''|t|'', ''x''] @ [''| **a** '' @ ''**'' @ ''b''])))"
    by code_simp
  have v: "translate_markdown_for_slack ''|t|\<newline>x\<newline>| **a** **b'' = Some ''```\<newline>t\<newline>```\<newline>x\<newline>| *a* **b''"
    by code_simp
  from unclosed_marker_verbatim [OF h1 h2, of "[''|t|'', ''x'']" "[]"] h1 h2 h3 h4 v
  show ?thesis by blast
qed

subsection \<open>C7: column widths\<close>

text \<open>
  C7: with \<open>num_cols\<close> the number of cells of the first row, there is one width for each
  column \<open>c < num_cols\<close>, and it is the maximum, over the rows that have more than \<open>c\<close>
  cells, of the length of cell \<open>c\<close> with every asterisk removed. Shorter rows and cells
  of index \<open>num_cols\<close> or more do not enter any width. The cell \<^verbatim>\<open>*Bob*\<close> counts for 3.
\<close>

theorem column_widths_max:
  "(rows \<noteq> [] \<longrightarrow>
      (\<exists>ws. calc_col_widths rows = Some (length (rows ! 0), ws) \<and>
            length ws = length (rows ! 0) \<and>
            (\<forall>c < length (rows ! 0).
               ws ! c = Max ((\<lambda>r. length (remove_stars (r ! c))) ` {r \<in> set rows. c < length r})))) \<and>
   length (remove_stars ''*Bob*'') = 3"
  using calc_col_widths_Max [of rows] by (simp add: col_cells_def remove_stars_def)

theorem column_widths_max_witness:
  "[[''*Bob*'', ''x''], [''a''], [''abcd'', ''e'', ''f'']] \<noteq> [] \<and>
   calc_col_widths [[''*Bob*'', ''x''], [''a''], [''abcd'', ''e'', ''f'']] = Some (2, [4, 1]) \<and>
   (\<exists>ws. calc_col_widths [[''*Bob*'', ''x''], [''a''], [''abcd'', ''e'', ''f'']] = Some (2, ws) \<and>
     ws ! 0 = Max ((\<lambda>r. length (remove_stars (r ! 0))) ` {r \<in> set [[''*Bob*'', ''x''], [''a''], [''abcd'', ''e'', ''f'']]. 0 < length r}))"
proof -
  have v: "calc_col_widths [[''*Bob*'', ''x''], [''a''], [''abcd'', ''e'', ''f'']] = Some (2, [4, 1])"
    by code_simp
  from column_widths_max [of "[[''*Bob*'', ''x''], [''a''], [''abcd'', ''e'', ''f'']]"]
  obtain ws where
    "calc_col_widths [[''*Bob*'', ''x''], [''a''], [''abcd'', ''e'', ''f'']] = Some (2, ws)"
    "\<forall>c<2. ws ! c = Max ((\<lambda>r. length (remove_stars (r ! c))) ` {r \<in> set [[''*Bob*'', ''x''], [''a''], [''abcd'', ''e'', ''f'']]. c < length r})"
    by auto
  then show ?thesis using v by auto
qed

subsection \<open>C4: a table of one row\<close>

text \<open>
  C4 gives the rendered line of \<^verbatim>\<open>|a|bb|\<close> as \<^verbatim>\<open>a  | bb\<close>, with two spaces after
  \<^verbatim>\<open>a\<close>. The cell \<^verbatim>\<open>a\<close> already has the width 1 of its column, so it gets no padding,
  and the cells are joined with one space, a pipe and one space.
\<close>

theorem single_row_counterexample:
  "translate_markdown_for_slack ''|a|bb|'' \<noteq> Some ''```\<newline>a  | bb\<newline>```'' \<and>
   format_table_for_slack [''|a|bb|''] \<noteq> Some [''a  | bb'']"
  by code_simp

text \<open>
  C4, amended: for the input \<^verbatim>\<open>|a|bb|\<close> the output is a fenced block with exactly one
  content line, \<^verbatim>\<open>a | bb\<close>; the column widths are 1 and 2; no separator line is written,
  the block having one row only.
\<close>

theorem single_row_table:
  "translate_markdown_for_slack ''|a|bb|'' = Some ''```\<newline>a | bb\<newline>```'' \<and>
   format_table_for_slack [''|a|bb|''] = Some [''a | bb''] \<and>
   calc_col_widths [parse_row ''|a|bb|''] = Some (2, [1, 2])"
  by code_simp

subsection \<open>C2: the lines of a table block\<close>

text \<open>
  C2: a line after a table row whose trimmed form starts with a pipe but does not end
  with one is not part of the block and is passed through. The program does otherwise:
  the test that opens a block asks for the final pipe, the test of the inner loop does
  not, so the line \<^verbatim>\<open>|b\<close> below is taken into the block, and its only cell is lost with
  the slice that removes the first and last pieces.
\<close>

theorem ragged_line_absorbed:
  "is_table_start ''|a|'' \<and> \<not> endswith (strip ''|b'') ''|'' \<and>
   translate_markdown_for_slack ''|a|\<newline>|b'' = Some ''```\<newline>a\<newline>-\<newline>\<newline>```''"
  by code_simp

subsection \<open>C5: header, separator and one data row\<close>

text \<open>
  C5 gives the separator line of the three-line example as \<^verbatim>\<open>-----|-----\<close>. The runs
  of dashes have the lengths 4 and 3 of the widths and are joined with \<^verbatim>\<open>-|-\<close>, which
  makes five dashes, a pipe and four dashes.
\<close>

theorem header_row_counterexample:
  "translate_markdown_for_slack ''|Name|Age|\<newline>|---|---|\<newline>|Bob|30|''
     \<noteq> Some ''```\<newline>Name | Age\<newline>-----|-----\<newline>Bob  | 30 \<newline>```''"
  by code_simp

text \<open>
  C5, amended: for the input \<^verbatim>\<open>|Name|Age|\<close>, \<^verbatim>\<open>|---|---|\<close>, \<^verbatim>\<open>|Bob|30|\<close> the output is
  a fenced block with exactly three content lines, \<^verbatim>\<open>Name | Age\<close>, \<^verbatim>\<open>-----|----\<close> and
  \<^verbatim>\<open>Bob  | 30\<close> with one space after it (widths 4 and 3). For every block, the separator
  line comes right after the header line, is made of one run of dashes of length
  \<open>width[c]\<close> for each column, joined with \<^verbatim>\<open>-|-\<close>, and is written exactly when more than
  one row has survived the filtering; every other row gives one line.
\<close>

theorem header_separator_row:
  "translate_markdown_for_slack ''|Name|Age|\<newline>|---|---|\<newline>|Bob|30|''
     = Some ''```\<newline>Name | Age\<newline>-----|----\<newline>Bob  | 30 \<newline>```'' \<and>
   calc_col_widths [parse_row ''|Name|Age|'', parse_row ''|Bob|30|''] = Some (2, [4, 3]) \<and>
   (table_lines = l # ls \<longrightarrow>
      (\<exists>n ws hdr body.
         calc_col_widths (map parse_row table_lines) = Some (n, ws) \<and>
         format_table_for_slack table_lines =
           Some (hdr # (if ls \<noteq> [] then [join ''-|-'' (map (\<lambda>c. replicate (ws ! c) (CHR ''-'')) [0..<n])]
                        else []) @ body) \<and>
         length body = length ls))"
proof -
  have a: "translate_markdown_for_slack ''|Name|Age|\<newline>|---|---|\<newline>|Bob|30|''
     = Some ''```\<newline>Name | Age\<newline>-----|----\<newline>Bob  | 30 \<newline>```''"
    by code_simp
  have b: "calc_col_widths [parse_row ''|Name|Age|'', parse_row ''|Bob|30|''] = Some (2, [4, 3])"
    by code_simp
  have c: "\<exists>n ws hdr body.
         calc_col_widths (map parse_row table_lines) = Some (n, ws) \<and>
         format_table_for_slack table_lines =
           Some (hdr # (if ls \<noteq> [] then [join ''-|-'' (map (\<lambda>c. replicate (ws ! c) (CHR ''-'')) [0..<n])]
                        else []) @ body) \<and>
         length body = length ls" if tl: "table_lines = l # ls"
  proof -
    let ?rows = "map parse_row table_lines"
    from tl have ne: "?rows \<noteq> []" by simp
    from calc_col_widths_Max [OF ne] obtain ws where
      w: "calc_col_widths ?rows = Some (length (?rows ! 0), ws)" and len: "length ws = length (?rows ! 0)"
      by auto
    from len have le: "length (?rows ! 0) \<le> length ws" by simp
    from format_rows_head [OF le, of "length ?rows" "parse_row l" "map parse_row ls"]
    obtain hdr body where
      f: "format_rows (length (?rows ! 0)) ws (length ?rows) (enumerate 0 (parse_row l # map parse_row ls)) =
           Some (hdr # (if 1 < length ?rows
                        then [join ''-|-'' (map (\<lambda>i. replicate (ws ! i) (CHR ''-'')) [0..<length (?rows ! 0)])]
                        else []) @ body)"
      and lb: "length body = length (map parse_row ls)"
      by blast
    have "format_table_for_slack table_lines =
           Some (hdr # (if ls \<noteq> [] then [join ''-|-'' (map (\<lambda>c. replicate (ws ! c) (CHR ''-'')) [0..<length (?rows ! 0)])]
                        else []) @ body)"
      using tl w f by (simp add: format_table_for_slack_def)
    with w lb show ?thesis by auto
  qed
  from a b c show ?thesis by blast
qed

theorem header_separator_row_witness:
  "[''|ab|c|'', ''|d|''] = ''|ab|c|'' # [''|d|''] \<and>
   calc_col_widths (map parse_row [''|ab|c|'', ''|d|'']) = Some (2, [2, 1]) \<and>
   format_table_for_slack [''|ab|c|'', ''|d|''] = Some [''ab | c'', ''---|--'', ''d '']"
proof -
  have v: "calc_col_widths (map parse_row [''|ab|c|'', ''|d|'']) = Some (2, [2, 1])"
    "format_table_for_slack [''|ab|c|'', ''|d|''] = Some [''ab | c'', ''---|--'', ''d '']"
    by code_simp+
  from header_separator_row [of "[''|ab|c|'', ''|d|'']" "''|ab|c|''" "[''|d|'']"]
  have "\<exists>n ws hdr body.
         calc_col_widths (map parse_row [''|ab|c|'', ''|d|'']) = Some (n, ws) \<and>
         format_table_for_slack [''|ab|c|'', ''|d|''] =
           Some (hdr # (if [''|d|''] \<noteq> [] then [join ''-|-'' (map (\<lambda>c. replicate (ws ! c) (CHR ''-'')) [0..<n])]
                        else []) @ body) \<and>
         length body = length [''|d|'']"
    by blast
  with v show ?thesis by simp
qed

subsection \<open>C10: a first row without cells\<close>

text \<open>
  C10: when the first surviving row of a block has no cell (a row whose trimmed form is
  a single pipe, say), \<open>num_cols\<close> is 0 and every rendered line is empty: one empty
  line for each surviving row, and one more for the separator when more than one row
  has survived. The block is rendered as these lines between the two fence lines: the
  outer loop, arrived at the first line of the block \<open>blk\<close>, goes on after its last line
  with the fence line, the empty lines and the fence line added to the lines written
  so far.
\<close>

theorem zero_column_table:
  assumes "table_lines \<noteq> []" and "parse_row (table_lines ! 0) = []"
  shows "calc_col_widths (map parse_row table_lines) = Some (0, []) \<and>
         format_table_for_slack table_lines =
           Some (replicate (length table_lines + (if 1 < length table_lines then 1 else 0)) []) \<and>
         (is_table_start (hd blk) \<and> list_all is_table_line blk \<and>
          (rest = [] \<or> \<not> is_table_line (hd rest)) \<and>
          filter (\<lambda>s. \<not> is_separator s) (map strip blk) = table_lines \<longrightarrow>
          scan_lines (pre @ blk @ rest) (length pre) acc =
            scan_lines (pre @ blk @ rest) (length pre + length blk)
              (acc @ [''```''] @
               replicate (length table_lines + (if 1 < length table_lines then 1 else 0)) [] @
               [''```'']))"
proof -
  from assms(1) have ne: "map parse_row table_lines \<noteq> []" by simp
  from assms have z: "length (map parse_row table_lines ! 0) = 0" by (cases table_lines) auto
  from calc_col_widths_Max [OF ne] z
  have w: "calc_col_widths (map parse_row table_lines) = Some (0, [])"
    by auto
  with assms(1)
    format_rows_no_cols [of "[]" "length (map parse_row table_lines)" 0 "map parse_row table_lines"]
  have f: "format_table_for_slack table_lines =
           Some (replicate (length table_lines + (if 1 < length table_lines then 1 else 0)) [])"
    by (simp add: format_table_for_slack_def)
  have s: "scan_lines (pre @ blk @ rest) (length pre) acc =
            scan_lines (pre @ blk @ rest) (length pre + length blk)
              (acc @ [''```''] @
               replicate (length table_lines + (if 1 < length table_lines then 1 else 0)) [] @
               [''```''])"
    if st: "is_table_start (hd blk)" and all_tl: "list_all is_table_line blk"
      and r: "rest = [] \<or> \<not> is_table_line (hd rest)"
      and t: "filter (\<lambda>s. \<not> is_separator s) (map strip blk) = table_lines"
  proof -
    let ?lines = "pre @ blk @ rest"
    from t assms(1) have bne: "blk \<noteq> []" by auto
    then have lt: "length pre < length ?lines" by simp
    from bne have nth: "?lines ! length pre = hd blk"
      by (simp add: nth_append hd_conv_nth)
    have ix: "index ?lines (length pre) = Some (hd blk)"
      using lt nth by (simp add: index_def)
    have tw: "takeWhile is_table_line (blk @ rest) = blk"
    proof (cases rest)
      case Nil
      with all_tl show ?thesis by (simp add: list_all_iff)
    next
      case (Cons x xs)
      with r all_tl show ?thesis by (simp add: takeWhile_tail list_all_iff)
    qed
    with t have ct: "collect_table ?lines (length pre) [] = Some (table_lines, length pre + length blk)"
      by (simp add: collect_table_eq)
    from lt ix st ct f assms(1) show ?thesis
      by (subst scan_lines.simps) simp
  qed
  from w f s show ?thesis by blast
qed

theorem zero_column_table_witness:
  "[''|'', ''|a|''] \<noteq> [] \<and> parse_row ([''|'', ''|a|''] ! 0) = [] \<and>
   is_table_start (hd ['' | '', ''|--|'', ''|a|'']) \<and>
   list_all is_table_line ['' | '', ''|--|'', ''|a|''] \<and>
   \<not> is_table_line (hd [''end'']) \<and>
   filter (\<lambda>s. \<not> is_separator s) (map strip ['' | '', ''|--|'', ''|a|'']) = [''|'', ''|a|''] \<and>
   format_table_for_slack [''|'', ''|a|''] = Some [[], [], []] \<and>
   scan_lines ([''top''] @ ['' | '', ''|--|'', ''|a|''] @ [''end'']) (length [''top'']) [''top''] =
     scan_lines ([''top''] @ ['' | '', ''|--|'', ''|a|''] @ [''end''])
       (length [''top''] + length ['' | '', ''|--|'', ''|a|''])
       ([''top''] @ [''```''] @ [[], [], []] @ [''```'']) \<and>
   translate_markdown_for_slack ''top\<newline> | \<newline>|--|\<newline>|a|\<newline>end''
     = Some ''top\<newline>```\<newline>\<newline>\<newline>\<newline>```\<newline>end'' \<and>
   translate_markdown_for_slack ''|'' = Some ''```\<newline>\<newline>```''"
proof -
  have h1: "[''|'', ''|a|''] \<noteq> []" by simp
  have h2: "parse_row ([''|'', ''|a|''] ! 0) = []" by code_simp
  have h3: "is_table_start (hd ['' | '', ''|--|'', ''|a|''])" by code_simp
  have h4: "list_all is_table_line ['' | '', ''|--|'', ''|a|'']" by code_simp
  have h5: "\<not> is_table_line (hd [''end''])" by code_simp
  have h6: "filter (\<lambda>s. \<not> is_separator s) (map strip ['' | '', ''|--|'', ''|a|'']) = [''|'', ''|a|'']"
    by code_simp
  have t1: "translate_markdown_for_slack ''top\<newline> | \<newline>|--|\<newline>|a|\<newline>end''
     = Some ''top\<newline>```\<newline>\<newline>\<newline>\<newline>```\<newline>end''" by code_simp
  have t2: "translate_markdown_for_slack ''|'' = Some ''```\<newline>\<newline>```''" by code_simp
  have r: "replicate (length [''|'', ''|a|''] + (if 1 < length [''|'', ''|a|''] then 1 else 0)) []
          = [[], [], []::string]"
    by code_simp
  from zero_column_table [OF h1 h2, of "['' | '', ''|--|'', ''|a|'']" "[''end'']" "[''top'']" "[''top'']"]
    h3 h4 h5 h6
  have "format_table_for_slack [''|'', ''|a|''] =
           Some (replicate (length [''|'', ''|a|''] + (if 1 < length [''|'', ''|a|''] then 1 else 0)) [])"
    and "scan_lines ([''top''] @ ['' | '', ''|--|'', ''|a|''] @ [''end'']) (length [''top'']) [''top''] =
     scan_lines ([''top''] @ ['' | '', ''|--|'', ''|a|''] @ [''end''])
       (length [''top''] + length ['' | '', ''|--|'', ''|a|''])
       ([''top''] @ [''```''] @
          replicate (length [''|'', ''|a|''] + (if 1 < length [''|'', ''|a|''] then 1 else 0)) [] @ [''```''])"
    by blast+
  with r h1 h2 h3 h4 h5 h6 t1 t2 show ?thesis by (simp only:) blast
qed

subsection \<open>C8: the transform fails on no input\<close>

text \<open>
  C8: the transform is total. All the functions above are defined with their
  termination proved, and the list accesses of the program that could raise
  \<^verbatim>\<open>IndexError\<close> (\<^verbatim>\<open>lines[i]\<close>, \<^verbatim>\<open>rows[0]\<close>, \<^verbatim>\<open>col_widths[i]\<close>) are the \<open>None\<close> results
  of the model: for every text the result is some output string.
\<close>

theorem translate_total: "\<exists>out. translate_markdown_for_slack text = Some out"
proof -
  obtain res where "scan_lines (py_split (CHR 0x0A) (re_sub_bold text)) 0 [] = Some res"
    using scan_lines_total by blast
  then show ?thesis by (simp add: translate_markdown_for_slack_def)
qed

subsection \<open>C6: texts without emphasis and without table\<close>

text \<open>
  C6 asks that no line starts and ends with a pipe, the line taken without trimming.
  The program trims the line before the test, so a line such as a space followed by
  \<^verbatim>\<open>|a|\<close> opens a block although it does not start with a pipe.
\<close>

theorem untrimmed_counterexample:
  "py_split (CHR 0x0A) '' |a|'' = ['' |a|''] \<and> \<not> startswith '' |a|'' ''|'' \<and>
   \<not> has_dstar '' |a|'' \<and>
   translate_markdown_for_slack '' |a|'' = Some ''```\<newline>a\<newline>```'' \<and>
   translate_markdown_for_slack '' |a|'' \<noteq> Some '' |a|''"
  by code_simp

text \<open>
  C6, amended: a text that contains no \<^verbatim>\<open>**\<close> pair (no \<^verbatim>\<open>**\<close> followed on its line by
  another \<^verbatim>\<open>**\<close>) and no line whose trimmed form both starts and ends with a pipe is
  returned unchanged.
\<close>

theorem plain_text_identity:
  assumes "\<not> has_bold_pair s"
    and "\<forall>l \<in> set (py_split (CHR 0x0A) s).
           \<not> (startswith (strip l) ''|'' \<and> endswith (strip l) ''|'')"
  shows "translate_markdown_for_slack s = Some s"
proof -
  from assms(1) have r: "re_sub_bold s = s" by (rule re_sub_bold_no_pair)
  from assms(2) have "list_all (\<lambda>l. \<not> is_table_start l) (py_split (CHR 0x0A) s)"
    by (auto simp: list_all_iff is_table_start_def)
  then have "scan_lines (py_split (CHR 0x0A) s) 0 [] = Some (py_split (CHR 0x0A) s)"
    by (simp add: scan_lines_plain)
  with r show ?thesis
    by (simp add: translate_markdown_for_slack_def join_py_split)
qed

theorem plain_text_identity_witness:
  "\<not> has_bold_pair ''a **b\<newline>c** |d'' \<and>
   py_split (CHR 0x0A) ''a **b\<newline>c** |d'' = [''a **b'', ''c** |d''] \<and>
   \<not> startswith (strip ''a **b'') ''|'' \<and> \<not> startswith (strip ''c** |d'') ''|'' \<and>
   translate_markdown_for_slack ''a **b\<newline>c** |d'' = Some ''a **b\<newline>c** |d''"
proof -
  have h1: "\<not> has_bold_pair ''a **b\<newline>c** |d''" by code_simp
  have sp: "py_split (CHR 0x0A) ''a **b\<newline>c** |d'' = [''a **b'', ''c** |d'']" by code_simp
  have ns: "\<not> startswith (strip ''a **b'') ''|''" "\<not> startswith (strip ''c** |d'') ''|''"
    by code_simp+
  with sp have h2: "\<forall>l \<in> set (py_split (CHR 0x0A) ''a **b\<newline>c** |d'').
           \<not> (startswith (strip l) ''|'' \<and> endswith (strip l) ''|'')"
    by simp
  from plain_text_identity [OF h1 h2] h1 sp ns show ?thesis by blast
qed

subsection \<open>C1: a block of separator rows only\<close>

text \<open>
  C1 says that a block that loses all its rows to the separator filter is rendered as
  two fence lines with nothing between them. The program guards the rendering with
  \<^verbatim>\<open>if table_lines:\<close> and writes nothing for such a block.
\<close>

theorem collapsed_block_counterexample:
  "is_table_start ''|---|'' \<and> is_separator (strip ''|---|'') \<and>
   translate_markdown_for_slack ''|---|'' = Some [] \<and>
   translate_markdown_for_slack ''|---|'' \<noteq> Some ''```\<newline>```''"
  by code_simp

text \<open>
  C1, amended: a block whose lines are all separator rows is dropped entirely. The outer
  loop, arrived at the first line of the block, goes on after the last line of the block
  with the lines written so far unchanged: neither a fence line nor anything else is
  written for the block.
\<close>

theorem collapsed_block_dropped:
  assumes "blk \<noteq> []"
    and "\<forall>l \<in> set blk. is_separator (strip l)"
    and "rest = [] \<or> \<not> is_table_line (hd rest)"
  shows "scan_lines (pre @ blk @ rest) (length pre) acc =
         scan_lines (pre @ blk @ rest) (length pre + length blk) acc"
proof -
  let ?lines = "pre @ blk @ rest"
  from assms(1) have lt: "length pre < length ?lines" by simp
  from assms(1) have nth: "?lines ! length pre = hd blk"
    by (simp add: nth_append hd_conv_nth)
  have ix: "index ?lines (length pre) = Some (hd blk)"
    using lt nth by (simp add: index_def)
  from assms(1,2) have st: "is_table_start (hd blk)"
    by (intro separator_is_table_start) simp
  have all_tl: "\<forall>l \<in> set blk. is_table_line l"
    using assms(2) by (auto intro: table_start_line separator_is_table_start)
  have tw: "takeWhile is_table_line (blk @ rest) = blk"
  proof (cases rest)
    case Nil
    with all_tl show ?thesis by simp
  next
    case (Cons r rs)
    with assms(3) all_tl show ?thesis by (simp add: takeWhile_tail)
  qed
  have "filter (\<lambda>s. \<not> is_separator s) (map strip blk) = []"
    using assms(2) by (simp add: filter_empty_conv)
  with tw have ct: "collect_table ?lines (length pre) [] = Some ([], length pre + length blk)"
    by (simp add: collect_table_eq)
  from lt ix st ct show ?thesis
    by (subst scan_lines.simps) simp
qed

theorem collapsed_block_dropped_witness:
  "[''|---|'', '' | :-: | ''] \<noteq> [] \<and>
   is_separator (strip ''|---|'') \<and> is_separator (strip '' | :-: | '') \<and>
   \<not> is_table_line (hd [''end'']) \<and>
   scan_lines ([''top''] @ [''|---|'', '' | :-: | ''] @ [''end'']) (length [''top'']) [''top''] =
     scan_lines ([''top''] @ [''|---|'', '' | :-: | ''] @ [''end''])
       (length [''top''] + length [''|---|'', '' | :-: | '']) [''top''] \<and>
   scan_lines [''top'', ''|---|'', '' | :-: | '', ''end''] 0 [] = Some [''top'', ''end'']"
proof -
  have h1: "[''|---|'', '' | :-: | ''] \<noteq> []" by simp
  have s: "is_separator (strip ''|---|'')" "is_separator (strip '' | :-: | '')" by code_simp+
  then have h2: "\<forall>l \<in> set [''|---|'', '' | :-: | '']. is_separator (strip l)" by simp
  have e: "\<not> is_table_line (hd [''end''])" by code_simp
  then have h3: "[''end''] = [] \<or> \<not> is_table_line (hd [''end''])" by simp
  have v: "scan_lines [''top'', ''|---|'', '' | :-: | '', ''end''] 0 [] = Some [''top'', ''end'']"
    by code_simp
  from collapsed_block_dropped [OF h1 h2 h3, of "[''top'']" "[''top'']"] h1 s e v
  show ?thesis by blast
qed

end
